theory Spec2Isabelle
  imports Complex_Main "HOL-Library.Sublist"
begin

section \<open>Python strings\<close>

text \<open>
  A Python \<open>str\<close> is a sequence of Unicode code points, so a string is modelled as a list
  of code points (\<open>nat\<close>), and \<open>len\<close> is \<open>length\<close>. The constants of the source are ASCII
  and are written as HOL string literals, converted by \<open>str\<close>.
\<close>

type_synonym ustring = "nat list"

definition str :: "string \<Rightarrow> ustring" where
  "str s = map of_char s"

text \<open>
  The parts of Python's string methods and of the \<open>re\<close> module that depend on the Unicode
  character database are fixed on ASCII and are otherwise read from a record of this
  type, an argument of every function that needs them: the behaviour of \<open>str.lower\<close> on a
  string that has a non-ASCII character, and the classes \<open>isalpha\<close>, \<open>isalnum\<close> and
  \<open>isdecimal\<close> of a non-ASCII character. A theorem that holds for every such record holds
  for the one of the Python interpreter.
\<close>

record unicode =
  lower_nonascii :: "ustring \<Rightarrow> ustring"
  isalpha_nonascii :: "nat \<Rightarrow> bool"
  isalnum_nonascii :: "nat \<Rightarrow> bool"
  isdecimal_nonascii :: "nat \<Rightarrow> bool"

definition ascii_only :: unicode where
  "ascii_only = \<lparr> lower_nonascii = (\<lambda>s. s), isalpha_nonascii = (\<lambda>c. False),
     isalnum_nonascii = (\<lambda>c. False), isdecimal_nonascii = (\<lambda>c. False) \<rparr>"

definition is_ascii :: "nat \<Rightarrow> bool" where
  "is_ascii c = (c < 128)"

definition is_upper_ascii :: "nat \<Rightarrow> bool" where
  "is_upper_ascii c = (65 \<le> c \<and> c \<le> 90)"

definition is_lower_ascii :: "nat \<Rightarrow> bool" where
  "is_lower_ascii c = (97 \<le> c \<and> c \<le> 122)"

definition is_digit_ascii :: "nat \<Rightarrow> bool" where
  "is_digit_ascii c = (48 \<le> c \<and> c \<le> 57)"

definition lower_ascii :: "nat \<Rightarrow> nat" where
  "lower_ascii c = (if is_upper_ascii c then c + 32 else c)"

definition upper_ascii :: "nat \<Rightarrow> nat" where
  "upper_ascii c = (if is_lower_ascii c then c - 32 else c)"

text \<open>\<open>str.lower()\<close>.\<close>

definition lower :: "unicode \<Rightarrow> ustring \<Rightarrow> ustring" where
  "lower U s = (if list_all is_ascii s then map lower_ascii s else lower_nonascii U s)"

text \<open>\<open>w in t\<close> on strings: \<open>w\<close> occurs in \<open>t\<close> as a contiguous substring.\<close>

fun contains :: "ustring \<Rightarrow> ustring \<Rightarrow> bool" where
  "contains w [] = (w = [])"
| "contains w (c # cs) = (prefix w (c # cs) \<or> contains w cs)"

section \<open>Clause classifier (module3\_clause\_detection.py)\<close>

text \<open>
  \<open>_rule_based_classify\<close> is a chain of \<open>if any(w in t for w in [...]): return label\<close>
  statements over \<open>t = text.lower()\<close>. The chain is the table \<open>rules\<close>, in the order of
  the source, and \<open>first_rule\<close> runs it from the top.
\<close>

definition rules :: "(string list \<times> string) list" where
  "rules =
   [([''confidential'', ''confidentiality'', ''non-disclosure'', ''nda'', ''proprietary information''],
       ''Confidentiality''),
    ([''terminate'', ''termination'', ''expire'', ''end of contract'', ''breach'', ''cancel''],
       ''Termination''),
    ([''indemnify'', ''indemnity'', ''hold harmless'', ''defend against''],
       ''Indemnity''),
    ([''arbitration'', ''dispute'', ''mediation'', ''court'', ''sole arbitrator'', ''litigation''],
       ''Dispute Resolution''),
    ([''governing law'', ''laws in force'', ''law of '', ''applicable law''],
       ''Governing Law''),
    ([''payment'', ''fee'', ''invoice'', ''compensation'', ''price'', ''remuneration'', ''salary''],
       ''Payment Terms''),
    ([''intellectual property'', ''copyright'', ''trademark'', ''patent'', ''ip rights'', ''ownership''],
       ''Intellectual Property''),
    ([''warranty'', ''warranties'', ''represent'', ''guarantee'', ''assurance''],
       ''Warranties''),
    ([''limitation of liability'', ''limited to'', ''aggregate liability'', ''consequential damages''],
       ''Limitation of Liability''),
    ([''force majeure'', ''act of god'', ''natural disaster'', ''unforeseen circumstances''],
       ''Force Majeure''),
    ([''assignment'', ''transfer'', ''assign rights'', ''delegate''],
       ''Assignment''),
    ([''non-compete'', ''non compete'', ''competitive'', ''solicitation'', ''restrictive covenant''],
       ''Non-Compete''),
    ([''severability'', ''severable'', ''invalid provision'', ''unenforceable''],
       ''Severability''),
    ([''amendment'', ''modify'', ''modification'', ''change'', ''variation''],
       ''Amendment''),
    ([''notice'', ''notification'', ''inform'', ''written notice'', ''email to''],
       ''Notice'')]"

text \<open>\<open>any(w in t for w in ws)\<close>.\<close>

definition any_in :: "string list \<Rightarrow> ustring \<Rightarrow> bool" where
  "any_in ws t = list_ex (\<lambda>w. contains (str w) t) ws"

fun first_rule :: "(string list \<times> string) list \<Rightarrow> ustring \<Rightarrow> string" where
  "first_rule [] t = ''Other''"
| "first_rule ((ws, label) # rs) t = (if any_in ws t then label else first_rule rs t)"

definition rule_based_classify :: "unicode \<Rightarrow> ustring \<Rightarrow> string" where
  "rule_based_classify U text = first_rule rules (lower U text)"

text \<open>The keywords of the categories listed before \<open>label\<close> in the table.\<close>

fun earlier_keywords :: "(string list \<times> string) list \<Rightarrow> string \<Rightarrow> string list" where
  "earlier_keywords [] label = []"
| "earlier_keywords ((ws, l) # rs) label =
     (if l = label then [] else ws @ earlier_keywords rs label)"

definition all_keywords :: "string list" where
  "all_keywords = concat (map fst rules)"

section \<open>Text normalizer (module2\_text\_preprocessing.py)\<close>

text \<open>
  The characters for which \<open>str.isspace()\<close> holds; they are also the characters that
  \<open>\s\<close> matches in a \<open>str\<close> pattern and that \<open>str.strip()\<close> and \<open>str.split()\<close> remove.
\<close>

definition is_space :: "nat \<Rightarrow> bool" where
  "is_space c = ((9 \<le> c \<and> c \<le> 13) \<or> (28 \<le> c \<and> c \<le> 32) \<or> c = 133 \<or> c = 160
     \<or> c = 5760 \<or> (8192 \<le> c \<and> c \<le> 8202) \<or> c = 8232 \<or> c = 8233 \<or> c = 8239
     \<or> c = 8287 \<or> c = 12288)"

text \<open>\<open>str.strip()\<close>.\<close>

definition lstrip :: "ustring \<Rightarrow> ustring" where
  "lstrip s = dropWhile is_space s"

definition rstrip :: "ustring \<Rightarrow> ustring" where
  "rstrip s = rev (dropWhile is_space (rev s))"

definition strip :: "ustring \<Rightarrow> ustring" where
  "strip s = rstrip (lstrip s)"

text \<open>
  \<open>str.replace(old, new)\<close>: the occurrences of \<open>old\<close> are replaced from the left, without
  overlap; with an empty \<open>old\<close>, Python puts \<open>new\<close> before every character and at the end.
\<close>

function replace_from :: "ustring \<Rightarrow> ustring \<Rightarrow> ustring \<Rightarrow> ustring" where
  "replace_from old new [] = []"
| "replace_from old new (c # cs) =
     (if old \<noteq> [] \<and> prefix old (c # cs)
      then new @ replace_from old new (drop (length old) (c # cs))
      else c # replace_from old new cs)"
  by pat_completeness auto
termination
  by (relation "measure (\<lambda>(old, new, s). length s)") auto

definition replace :: "ustring \<Rightarrow> ustring \<Rightarrow> ustring \<Rightarrow> ustring" where
  "replace old new s =
     (if old = [] then new @ concat (map (\<lambda>c. c # new) s) else replace_from old new s)"

text \<open>\<open>re.sub(r'[\r\f\v]', '', text)\<close>: the characters 13, 12 and 11 are deleted.\<close>

definition drop_controls :: "ustring \<Rightarrow> ustring" where
  "drop_controls s = filter (\<lambda>c. c \<noteq> 13 \<and> c \<noteq> 12 \<and> c \<noteq> 11) s"

text \<open>\<open>re.sub(r'\s+', ' ', text)\<close>: every maximal run of whitespace becomes one space.\<close>

function collapse_spaces :: "ustring \<Rightarrow> ustring" where
  "collapse_spaces [] = []"
| "collapse_spaces (c # cs) =
     (if is_space c then 32 # collapse_spaces (dropWhile is_space cs)
      else c # collapse_spaces cs)"
  by pat_completeness auto
termination
  by (relation "measure length") (auto simp: length_dropWhile_le less_Suc_eq_le)

text \<open>
  The dictionary \<open>quote_map\<close>. In the source file its four lines hold ASCII quotes only:
  \<^verbatim>\<open>'"': '"',\<close> twice, then \<^verbatim>\<open>''': "'",\<close> twice. The first two lines are the same entry,
  from \<open>"\<close> (34) to \<open>"\<close>. On the last two lines \<^verbatim>\<open>'''\<close> opens a triple-quoted string that the
  next \<^verbatim>\<open>'''\<close> closes, so they are one entry: its key is the text between them, a colon,
  a space, \<^verbatim>\<open>"'",\<close>, a line break and eight spaces, and its value is \<open>'\<close> (39). The items
  are in insertion order.
\<close>

definition quote_key2 :: ustring where
  "quote_key2 = [58, 32, 34, 39, 34, 44, 10] @ replicate 8 32"

definition quote_map :: "(ustring \<times> ustring) list" where
  "quote_map = [([34], [34]), (quote_key2, [39])]"

text \<open>The loop \<open>for src, replacement in quote_map.items(): text = text.replace(src, replacement)\<close>.\<close>

fun replace_all :: "(ustring \<times> ustring) list \<Rightarrow> ustring \<Rightarrow> ustring" where
  "replace_all [] s = s"
| "replace_all ((src, replacement) # m) s = replace_all m (replace src replacement s)"

definition clean_text :: "ustring \<Rightarrow> ustring" where
  "clean_text text =
     strip (replace_all quote_map
       (collapse_spaces (drop_controls (replace [160] [32] text))))"

text \<open>The curly quotation marks U+2018, U+2019, U+201C and U+201D.\<close>

definition is_curly_quote :: "nat \<Rightarrow> bool" where
  "is_curly_quote c = (c = 8216 \<or> c = 8217 \<or> c = 8220 \<or> c = 8221)"

text \<open>
  The shape of a normalized text: every whitespace character is a plain space, and no
  whitespace character follows a space.
\<close>

fun tidy :: "ustring \<Rightarrow> bool" where
  "tidy [] = True"
| "tidy [c] = (is_space c \<longrightarrow> c = 32)"
| "tidy (c # d # cs) = ((is_space c \<longrightarrow> c = 32 \<and> \<not> is_space d) \<and> tidy (d # cs))"

section \<open>Regular expressions of the \<open>re\<close> module\<close>

text \<open>
  The patterns of the source use character classes, literal characters, greedy counted
  repetition of a character class (\<open>?\<close>, \<open>*\<close>, \<open>+\<close>, \<open>{m,n}\<close>), alternation, one capturing
  group and the word boundary \<open>\b\<close>. \<open>rx_match\<close> is the backtracking matcher of \<open>re\<close> for
  them: from a state it returns the states after a match, in the order in which
  backtracking tries them, so the head of the list is the match that \<open>re\<close> reports.
  A state is the character before the position (for \<open>\b\<close>), the rest of the text, the
  position, and the span of group 1 if it has been matched.
\<close>

datatype rx =
    Eps
  | Cls "nat \<Rightarrow> bool"
  | Rep nat "nat option" "nat \<Rightarrow> bool"
  | Seq rx rx
  | Alt rx rx
  | Grp rx
  | WordB "nat \<Rightarrow> bool"

type_synonym mstate = "nat option \<times> ustring \<times> nat \<times> (nat \<times> nat) option"

fun rx_match :: "rx \<Rightarrow> mstate \<Rightarrow> mstate list" where
  "rx_match Eps st = [st]"
| "rx_match (Cls p) (prev, rest, pos, g) =
     (case rest of [] \<Rightarrow> []
      | c # cs \<Rightarrow> if p c then [(Some c, cs, pos + 1, g)] else [])"
| "rx_match (Rep m n p) (prev, rest, pos, g) =
     (let run = length (takeWhile p rest);
          k = (case n of None \<Rightarrow> run | Some b \<Rightarrow> min run b)
      in if k < m then []
         else map (\<lambda>j. (if j = 0 then prev else Some (rest ! (j - 1)), drop j rest, pos + j, g))
                (rev [m ..< Suc k]))"
| "rx_match (Seq a b) st = concat (map (rx_match b) (rx_match a st))"
| "rx_match (Alt a b) st = rx_match a st @ rx_match b st"
| "rx_match (Grp r) (prev, rest, pos, g) =
     map (\<lambda>(prev', rest', e, g'). (prev', rest', e, Some (pos, e))) (rx_match r (prev, rest, pos, g))"
| "rx_match (WordB w) (prev, rest, pos, g) =
     (let word_left = (case prev of None \<Rightarrow> False | Some c \<Rightarrow> w c);
          word_right = (case rest of [] \<Rightarrow> False | c # cs \<Rightarrow> w c)
      in if word_left \<noteq> word_right then [(prev, rest, pos, g)] else [])"

text \<open>The character before position \<open>i\<close> of \<open>s\<close>.\<close>

definition char_before :: "ustring \<Rightarrow> nat \<Rightarrow> nat option" where
  "char_before s i = (if i = 0 \<or> length s < i then None else Some (s ! (i - 1)))"

text \<open>
  \<open>re.finditer(pattern, s)\<close>: the matches from left to right without overlap, each as
  (start, end, span of group 1). The search for the next match starts where the last one
  ended. No pattern of the source matches the empty string; after an empty match the
  model moves on by one character.
\<close>

function finditer_from :: "rx \<Rightarrow> ustring \<Rightarrow> nat \<Rightarrow> (nat \<times> nat \<times> (nat \<times> nat) option) list" where
  "finditer_from r s i =
     (if length s < i then []
      else case rx_match r (char_before s i, drop i s, i, None) of
             [] \<Rightarrow> finditer_from r s (i + 1)
           | (prev', rest', e, g) # other \<Rightarrow>
               (i, e, g) # finditer_from r s (if i < e then e else i + 1))"
  by pat_completeness auto
termination
  by (relation "measure (\<lambda>(r, s, i). Suc (length s) - i)") auto

declare finditer_from.simps [simp del]

definition finditer :: "rx \<Rightarrow> ustring \<Rightarrow> (nat \<times> nat \<times> (nat \<times> nat) option) list" where
  "finditer r s = finditer_from r s 0"

text \<open>Python's slice \<open>s[a:b]\<close> for \<open>0 \<le> a\<close> and \<open>0 \<le> b\<close>.\<close>

definition slice :: "ustring \<Rightarrow> nat \<Rightarrow> nat \<Rightarrow> ustring" where
  "slice s a b = take (b - a) (drop a s)"

text \<open>A sequence of patterns.\<close>

fun seqs :: "rx list \<Rightarrow> rx" where
  "seqs [] = Eps"
| "seqs (r # rs) = Seq r (seqs rs)"


text \<open>
  Under \<open>re.IGNORECASE\<close> a character of the text matches a literal ASCII letter when its
  lower case is that letter's lower case: these are the two ASCII letters and, for \<open>i\<close>,
  U+0130 and U+0131, for \<open>s\<close>, U+017F, and for \<open>k\<close>, U+212A. A literal that is not a letter
  matches itself only.
\<close>

definition ci_char :: "nat \<Rightarrow> nat \<Rightarrow> bool" where
  "ci_char c x = (lower_ascii x = lower_ascii c
     \<or> (lower_ascii c = 105 \<and> (x = 304 \<or> x = 305))
     \<or> (lower_ascii c = 115 \<and> x = 383)
     \<or> (lower_ascii c = 107 \<and> x = 8490))"

fun ilit :: "string \<Rightarrow> rx" where
  "ilit [] = Eps"
| "ilit (c # cs) = Seq (Cls (ci_char (of_char c))) (ilit cs)"

text \<open>\<open>[A-Z]\<close> under \<open>re.IGNORECASE\<close>: the 52 ASCII letters and the four characters above.\<close>

definition ci_letter :: "nat \<Rightarrow> bool" where
  "ci_letter x = (is_upper_ascii x \<or> is_lower_ascii x \<or> x = 304 \<or> x = 305 \<or> x = 383 \<or> x = 8490)"

text \<open>\<open>\d\<close> and the word characters of \<open>\b\<close> in a \<open>str\<close> pattern.\<close>

definition is_decimal :: "unicode \<Rightarrow> nat \<Rightarrow> bool" where
  "is_decimal U c = (if is_ascii c then is_digit_ascii c else isdecimal_nonascii U c)"

definition is_alnum :: "unicode \<Rightarrow> nat \<Rightarrow> bool" where
  "is_alnum U c = (if is_ascii c then is_upper_ascii c \<or> is_lower_ascii c \<or> is_digit_ascii c
     else isalnum_nonascii U c)"

definition is_word :: "unicode \<Rightarrow> nat \<Rightarrow> bool" where
  "is_word U c = (is_alnum U c \<or> c = 95)"

section \<open>Clause segmenter (module2\_text\_preprocessing.py)\<close>

text \<open>\<open>re.sub(r'\r\n?', '\n', text)\<close> and \<open>re.sub(r'\n+', '\n', text)\<close>.\<close>

function norm_cr :: "ustring \<Rightarrow> ustring" where
  "norm_cr [] = []"
| "norm_cr (c # cs) =
     (if c = 13 then 10 # norm_cr (if cs \<noteq> [] \<and> hd cs = 10 then tl cs else cs)
      else c # norm_cr cs)"
  by pat_completeness auto
termination
  by (relation "measure length") auto

function collapse_nl :: "ustring \<Rightarrow> ustring" where
  "collapse_nl [] = []"
| "collapse_nl (c # cs) =
     (if c = 10 then 10 # collapse_nl (dropWhile (\<lambda>x. x = 10) cs)
      else c # collapse_nl cs)"
  by pat_completeness auto
termination
  by (relation "measure length") (auto simp: length_dropWhile_le less_Suc_eq_le)

definition normalize_breaks :: "ustring \<Rightarrow> ustring" where
  "normalize_breaks text = collapse_nl (norm_cr text)"

text \<open>
  The list \<open>markers\<close>, in the order of the source. Every pattern is searched with
  \<open>re.IGNORECASE | re.MULTILINE\<close>; no pattern has \<open>^\<close> or \<open>$\<close>, so only \<open>IGNORECASE\<close> matters.
\<close>

definition ws_plus :: rx where
  "ws_plus = Rep 1 None is_space"

definition ws_star :: rx where
  "ws_star = Rep 0 None is_space"

definition markers :: "unicode \<Rightarrow> (rx \<times> string) list" where
  "markers U =
   [(Grp (seqs [ilit ''Annexure'', Rep 0 (Some 1) (\<lambda>x. x = 45), ws_star]), ''ANNEXURE''),
    (Grp (ilit ''AGREEMENT FORMAT''), ''HEADING''),
    (Grp (ilit ''(ON NON-JUDICIAL''), ''SUBHEADING''),
    (Grp (seqs [ilit ''This'', ws_plus, ilit ''agreement'', ws_plus, ilit ''is'', ws_plus,
       ilit ''made'']), ''PREAMBLE''),
    (Grp (seqs [WordB (is_word U), ilit ''AND'', ws_star, Cls (\<lambda>x. x = 10)]), ''AND_SEPARATOR''),
    (Grp (seqs [ilit ''Whereas'', ws_plus, ilit ''the'', ws_plus, ilit ''Employer'']), ''WHEREAS''),
    (Grp (ilit ''NOW THIS AGREEMENT WITNESSETH''), ''WITNESSETH''),
    (Grp (seqs [Cls (\<lambda>x. x = 10), ws_star, Rep 1 None (is_decimal U), Cls (\<lambda>x. x = 46),
       ws_plus, Cls ci_letter]), ''NUMBERED_CLAUSE''),
    (Grp (ilit ''In witness whereof''), ''IN_WITNESS''),
    (Grp (ilit ''The Common Seal''), ''SEAL''),
    (Grp (ilit ''Signed Sealed and Delivered''), ''SIGNED''),
    (Grp (ilit ''For & on behalf of Employer''), ''EMPLOYER_SIG''),
    (Grp (ilit ''For & on behalf of Contractor''), ''CONTRACTOR_SIG''),
    (Grp (seqs [WordB (is_word U), ilit ''Note:'']), ''NOTE'')]"

text \<open>
  The two loops that fill \<open>splits\<close> with (start, label, matched text), and the stable sort
  by start position.
\<close>

definition marker_matches :: "ustring \<Rightarrow> (rx \<times> string) \<Rightarrow> (nat \<times> string \<times> ustring) list" where
  "marker_matches text m =
     map (\<lambda>(start, e, g). (start, snd m, slice text start e)) (finditer (fst m) text)"

definition find_splits :: "unicode \<Rightarrow> ustring \<Rightarrow> (nat \<times> string \<times> ustring) list" where
  "find_splits U text = sort_key fst (concat (map (marker_matches text) (markers U)))"

text \<open>
  The paragraph fallback: \<open>re.split(r'\n\s*\n+', text)\<close>, the pieces stripped and the empty
  ones dropped, then the pieces longer than 20 characters.
\<close>

definition blank_line :: rx where
  "blank_line = seqs [Cls (\<lambda>x. x = 10), ws_star, Rep 1 None (\<lambda>x. x = 10)]"

fun pieces :: "ustring \<Rightarrow> nat \<Rightarrow> (nat \<times> nat \<times> (nat \<times> nat) option) list \<Rightarrow> ustring list" where
  "pieces s prev [] = [slice s prev (length s)]"
| "pieces s prev ((start, e, g) # ms) = slice s prev start # pieces s e ms"

definition re_split :: "rx \<Rightarrow> ustring \<Rightarrow> ustring list" where
  "re_split r s = pieces s 0 (finditer r s)"

definition paragraph_clauses :: "ustring \<Rightarrow> ustring list" where
  "paragraph_clauses text =
     (let paragraphs = map strip (filter (\<lambda>p. strip p \<noteq> []) (re_split blank_line text))
      in filter (\<lambda>p. 20 < length p) paragraphs)"

text \<open>
  The marker path. The text before the first marker is appended as it is; the text from
  each marker to the next one (or to the end) is appended when it has more than 15
  characters. The last line of the loop keeps the clauses of more than 10 characters.
\<close>

definition lead_clause :: "ustring \<Rightarrow> (nat \<times> string \<times> ustring) list \<Rightarrow> ustring list" where
  "lead_clause text splits =
     (case splits of [] \<Rightarrow> []
      | (pos, label, matched_text) # rest \<Rightarrow> if 0 < pos then [strip (take pos text)] else [])"

fun marker_clauses :: "ustring \<Rightarrow> (nat \<times> string \<times> ustring) list \<Rightarrow> ustring list" where
  "marker_clauses text [] = []"
| "marker_clauses text ((pos, label, matched_text) # rest) =
     (let end_pos = (case rest of [] \<Rightarrow> length text | (p, l, m) # r \<Rightarrow> p);
          clause_text = strip (slice text pos end_pos)
      in (if clause_text \<noteq> [] \<and> 15 < length clause_text then [clause_text] else [])
         @ marker_clauses text rest)"

definition clean_up :: "ustring list \<Rightarrow> ustring list" where
  "clean_up clauses = map strip (filter (\<lambda>c. strip c \<noteq> [] \<and> 10 < length (strip c)) clauses)"

definition segment_clauses :: "unicode \<Rightarrow> ustring \<Rightarrow> ustring list" where
  "segment_clauses U text0 =
     (if text0 = [] \<or> strip text0 = [] then [text0]
      else let text = normalize_breaks text0;
               splits = find_splits U text
           in if splits = [] then
                (let clauses = paragraph_clauses text
                 in if clauses \<noteq> [] then clauses else [text])
              else
                (let clauses = clean_up (lead_clause text splits @ marker_clauses text splits)
                 in if clauses \<noteq> [] then clauses else [text]))"

section \<open>Legal term extractor (module4\_legal\_terms.py)\<close>




text \<open>A record of the result list; the source builds it as a dictionary with these four keys.\<close>

record legal_term =
  "term" :: ustring
  category :: ustring
  "definition" :: ustring
  simplified_explanation :: ustring
















text \<open>\<open>str.split()\<close>: the maximal runs of characters that are not whitespace.\<close>

fun split_from :: "ustring \<Rightarrow> ustring \<Rightarrow> ustring list" where
  "split_from cur [] = (if cur = [] then [] else [cur])"
| "split_from cur (c # cs) =
     (if is_space c then (if cur = [] then [] else [cur]) @ split_from [] cs
      else split_from (cur @ [c]) cs)"

definition split :: "ustring \<Rightarrow> ustring list" where
  "split s = split_from [] s"














section \<open>The tokenizers of \<open>nltk\<close>\<close>

text \<open>
  \<open>nltk.tokenize.sent_tokenize\<close> and \<open>nltk.tokenize.word_tokenize\<close> are outside the source:
  each is a function from the text to the list of its sentences or tokens, or to \<open>None\<close>
  when the call raises (the tokenizer data may be missing).
\<close>

record nltk =
  sent_tokenize :: "ustring \<Rightarrow> ustring list option"
  word_tokenize :: "ustring \<Rightarrow> ustring list option"

section \<open>Language simplification (module5\_language\_simplification.py)\<close>

text \<open>
  The summarization pipeline is outside the source. A call
  \<open>_simplifier(sent, max_length=n, min_length=10, do_sample=True, temperature=t, top_p=0.95,
  truncation=True)\<close> raises, or returns a result without a \<open>summary_text\<close>, or returns one
  with the summary. With \<open>do_sample=True\<close> the same arguments need not give the same
  result twice, so the pipeline is a function of the index of the sentence for which it is
  called, of the sentence, of \<open>max_length\<close> and of \<open>temperature\<close>; the other arguments are
  constants of the source.
\<close>

datatype outcome = Raises | NoSummary | Summary ustring

type_synonym simplifier = "nat \<Rightarrow> ustring \<Rightarrow> nat \<Rightarrow> rat \<Rightarrow> outcome"

text \<open>
  What the module finds around it: whether \<open>transformers\<close> could be imported (\<open>_HAS_HF\<close>),
  what \<open>pipeline("summarization", ...)\<close> gives when it is called (\<open>None\<close> when it raises),
  the tokenizers of \<open>nltk\<close> (a failing import is a call that raises), and \<open>int(n * r)\<close> on
  the floating-point product of a word count and a ratio.
\<close>

record simplify_env =
  has_hf :: bool
  pipeline :: "simplifier option"
  nltk :: nltk
  mul_trunc :: "nat \<Rightarrow> rat \<Rightarrow> nat"

text \<open>The module's globals \<open>_simplifier\<close> and \<open>_load_attempted\<close>.\<close>

record simplify_state =
  simplifier :: "simplifier option"
  load_attempted :: bool

definition ensure_simplifier_loaded :: "simplify_env \<Rightarrow> simplify_state \<Rightarrow> bool \<times> simplify_state" where
  "ensure_simplifier_loaded E st =
     (if load_attempted st then (simplifier st \<noteq> None, st)
      else if \<not> has_hf E then (False, st\<lparr> load_attempted := True \<rparr>)
      else (pipeline E \<noteq> None, st\<lparr> load_attempted := True, simplifier := pipeline E \<rparr>))"

text \<open>\<open>' '.join(words)\<close>.\<close>

fun join_spaces :: "ustring list \<Rightarrow> ustring" where
  "join_spaces [] = []"
| "join_spaces [w] = w"
| "join_spaces (w # v # ws) = w @ 32 # join_spaces (v # ws)"

text \<open>
  \<open>str.capitalize()\<close> on an ASCII string: the first character in upper case, the others in
  lower case. The source applies it to the keys and values of \<open>replacements\<close>.
\<close>

fun capitalize :: "ustring \<Rightarrow> ustring" where
  "capitalize [] = []"
| "capitalize (c # cs) = upper_ascii c # map lower_ascii cs"

text \<open>
  The loop \<open>for old, new in replacements.items()\<close>, which replaces the word and then the
  capitalized word.
\<close>

fun replace_terms :: "(string \<times> string) list \<Rightarrow> ustring \<Rightarrow> ustring" where
  "replace_terms [] s = s"
| "replace_terms ((old, new) # rs) s =
     replace_terms rs
       (replace (capitalize (str old)) (capitalize (str new)) (replace (str old) (str new) s))"

definition aggressive_replacements :: "(string \<times> string) list" where
  "aggressive_replacements =
     [(''aforementioned'', ''mentioned''), (''herein'', ''here''), (''thereof'', ''of it''),
      (''whereby'', ''by which''), (''hereunder'', ''under this''), (''thereto'', ''to it''),
      (''pursuant to'', ''according to''), (''notwithstanding'', ''despite'')]"

definition moderate_replacements :: "(string \<times> string) list" where
  "moderate_replacements =
     [(''aforementioned'', ''mentioned''), (''herein'', ''here''), (''pursuant to'', ''according to'')]"

definition aggressive_simplification :: "unicode \<Rightarrow> ustring \<Rightarrow> nat \<Rightarrow> ustring" where
  "aggressive_simplification U s max_length =
     (let words = split s;
          s1 = (if max_length < length words
                then (let cut = join_spaces (take max_length words)
                      in if cut \<noteq> [] \<and> is_alnum U (last cut) then cut @ [46] else cut)
                else s)
      in replace_terms aggressive_replacements s1)"

definition moderate_simplification :: "ustring \<Rightarrow> nat \<Rightarrow> ustring" where
  "moderate_simplification s max_length = replace_terms moderate_replacements s"

text \<open>
  The level-specific parameters: \<open>temperature\<close>, \<open>length_ratio\<close> and \<open>max_sentence_length\<close>.
\<close>

definition level_params :: "ustring \<Rightarrow> rat \<times> rat \<times> nat" where
  "level_params level =
     (if level = str ''basic'' then (5 / 10, 85 / 100, 30)
      else if level = str ''intermediate'' then (7 / 10, 70 / 100, 25)
      else (1, 55 / 100, 20))"

text \<open>
  The body of the loop over the sentences, for the sentence \<open>sent\<close> at index \<open>i\<close>: the value
  that is appended to \<open>simplified_sentences\<close>. \<open>len(ai_output) <= len(sent) * 1.5\<close> compares
  an integer with a float that is exact, so it is \<open>2 * len(ai_output) <= 3 * len(sent)\<close>.
\<close>

definition simplify_sentence ::
  "unicode \<Rightarrow> simplify_env \<Rightarrow> simplifier \<Rightarrow> ustring \<Rightarrow> nat \<Rightarrow> ustring \<Rightarrow> ustring" where
  "simplify_sentence U E sim level i sent =
     (case level_params level of (temperature, length_ratio, max_sentence_length) \<Rightarrow>
        if length (strip sent) < 20 then sent
        else
          (let sent_words = length (split sent);
               dynamic_max_length = max 15 (min (mul_trunc E sent_words length_ratio) 50)
           in case sim i sent dynamic_max_length temperature of
                Raises \<Rightarrow> sent
              | NoSummary \<Rightarrow> sent
              | Summary summary_text \<Rightarrow>
                  (let ai_output = strip summary_text;
                       ai_output =
                         (if level = str ''advanced''
                          then aggressive_simplification U ai_output max_sentence_length
                          else if level = str ''intermediate''
                          then moderate_simplification ai_output max_sentence_length
                          else ai_output)
                   in if 5 < length ai_output \<and> 2 * length ai_output \<le> 3 * length sent
                      then ai_output else sent)))"

text \<open>
  \<open>simplify_text(text, max_length, level)\<close>: the returned string and the globals after the
  call. The argument \<open>max_length\<close> is not used by the body.
\<close>

definition simplify_text ::
  "unicode \<Rightarrow> simplify_env \<Rightarrow> simplify_state \<Rightarrow> ustring \<Rightarrow> nat \<Rightarrow> ustring
     \<Rightarrow> ustring \<times> simplify_state" where
  "simplify_text U E st text0 max_length level =
     (if text0 = [] \<or> strip text0 = [] then (text0, st)
      else
        (let st1 = (if has_hf E \<and> simplifier st = None \<and> \<not> load_attempted st
                    then snd (ensure_simplifier_loaded E st) else st)
         in case simplifier st1 of
              None \<Rightarrow> (text0, st1)
            | Some sim \<Rightarrow>
                if 10 < length (split text0) then
                  (case sent_tokenize (nltk E) text0 of
                     None \<Rightarrow> (text0, st1)
                   | Some sentences \<Rightarrow>
                       (join_spaces (map (\<lambda>(i, sent). simplify_sentence U E sim level i sent)
                          (zip [0 ..< length sentences] sentences)), st1))
                else (text0, st1)))"

section \<open>Reading ease (main.py, readability\_metrics.py)\<close>

text \<open>\<open>str.isalpha()\<close>: the string is not empty and all its characters are letters.\<close>

definition is_alpha :: "unicode \<Rightarrow> nat \<Rightarrow> bool" where
  "is_alpha U c = (if is_ascii c then is_upper_ascii c \<or> is_lower_ascii c else isalpha_nonascii U c)"

definition isalpha :: "unicode \<Rightarrow> ustring \<Rightarrow> bool" where
  "isalpha U w = (w \<noteq> [] \<and> list_all (is_alpha U) w)"

text \<open>
  \<open>count_syllables\<close>. The loop counts the positions where a vowel of \<open>"aeiouy"\<close> follows a
  character that is not one (or starts the word).
\<close>

definition is_vowel :: "nat \<Rightarrow> bool" where
  "is_vowel c = (c \<in> set (str ''aeiouy''))"

fun vowel_groups :: "bool \<Rightarrow> ustring \<Rightarrow> nat" where
  "vowel_groups previous_was_vowel [] = 0"
| "vowel_groups previous_was_vowel (c # cs) =
     (if is_vowel c \<and> \<not> previous_was_vowel then 1 else 0) + vowel_groups (is_vowel c) cs"

definition count_syllables :: "unicode \<Rightarrow> ustring \<Rightarrow> nat" where
  "count_syllables U word0 =
     (let word = lower U word0
      in if length word \<le> 1 then 1
         else (let word = (if last word = 101 then butlast word else word)
               in max 1 (vowel_groups False word)))"

text \<open>
  The floating-point operations that \<open>calculate_reading_ease\<close> uses, on floats as the
  rational numbers they are: the float of a decimal literal, subtraction, multiplication,
  the division of an integer by an integer, and \<open>round(x, 2)\<close>. The comparisons of \<open>min\<close>
  and \<open>max\<close> are exact. A theorem that holds for every such record holds for the
  arithmetic of the interpreter.
\<close>

record floats =
  literal :: "rat \<Rightarrow> rat"
  fsub :: "rat \<Rightarrow> rat \<Rightarrow> rat"
  fmul :: "rat \<Rightarrow> rat \<Rightarrow> rat"
  int_div :: "nat \<Rightarrow> nat \<Rightarrow> rat"
  round2 :: "rat \<Rightarrow> rat"

text \<open>
  The arithmetic without rounding errors, where \<open>round(x, 2)\<close> is the nearest multiple of
  0.01 and a tie goes to the even one.
\<close>

definition round_half_even :: "rat \<Rightarrow> int" where
  "round_half_even y =
     (let f = \<lfloor>y\<rfloor>; d = y - of_int f
      in if d < 1 / 2 then f else if 1 / 2 < d then f + 1 else if even f then f else f + 1)"

definition exact_floats :: floats where
  "exact_floats = \<lparr> literal = (\<lambda>x. x), fsub = (\<lambda>x y. x - y), fmul = (\<lambda>x y. x * y),
     int_div = (\<lambda>a b. of_nat a / of_nat b),
     round2 = (\<lambda>x. of_int (round_half_even (x * 100)) / 100) \<rparr>"

text \<open>
  The score of a text with the given numbers of words, sentences and syllables: the four
  lines from \<open>words_per_sentence\<close> to the \<open>return\<close> of the \<open>try\<close> block.
\<close>

definition reading_ease_score :: "floats \<Rightarrow> nat \<Rightarrow> nat \<Rightarrow> nat \<Rightarrow> rat" where
  "reading_ease_score F n_words n_sentences syllable_count =
     (let words_per_sentence = int_div F n_words (max n_sentences 1);
          syllables_per_word = int_div F syllable_count (max n_words 1);
          score = fsub F (fsub F (literal F (206835 / 1000))
                            (fmul F (literal F (1015 / 1000)) words_per_sentence))
                    (fmul F (literal F (846 / 10)) syllables_per_word)
      in round2 F (max (min score 100) 0))"

text \<open>
  \<open>calculate_reading_ease\<close>. An exception of a tokenizer is caught by the \<open>except\<close> clause,
  which returns 0.0; nothing else in the \<open>try\<close> block raises.
\<close>

definition calculate_reading_ease :: "unicode \<Rightarrow> floats \<Rightarrow> nltk \<Rightarrow> ustring \<Rightarrow> rat" where
  "calculate_reading_ease U F N text0 =
     (if text0 = [] \<or> strip text0 = [] then 0
      else case sent_tokenize N text0 of
             None \<Rightarrow> 0
           | Some sentences \<Rightarrow>
               (case word_tokenize N text0 of
                  None \<Rightarrow> 0
                | Some tokens \<Rightarrow>
                    (let words = filter (isalpha U) tokens
                     in if length sentences = 0 \<or> length words = 0 then 0
                        else reading_ease_score F (length words) (length sentences)
                               (sum_list (map (count_syllables U) words)))))"

section \<open>Properties of the clause classifier\<close>

lemma first_rule_skip:
  "\<forall>r \<in> set pre. \<not> any_in (fst r) t \<Longrightarrow> first_rule (pre @ rs) t = first_rule rs t"
  by (induction pre) auto

lemma first_rule_none:
  "\<forall>r \<in> set rs. \<not> any_in (fst r) t \<Longrightarrow> first_rule rs t = ''Other''"
  by (induction rs) auto

text \<open>
  Claim C6. The rule-based classifier depends on its input only through the lower-cased
  text, and the first row of the keyword table with a keyword occurring in the lower-cased
  text gives the label: a lower-cased text that contains "indemnify" and no keyword of
  the rows listed before Indemnity is classified "Indemnity", and one that contains no
  keyword of the table is classified "Other".
\<close>

theorem rule_based_classify_first_match:
  "(lower U a = lower U b \<longrightarrow> rule_based_classify U a = rule_based_classify U b)
   \<and> (i < length rules \<and> any_in (fst (rules ! i)) (lower U text)
        \<and> list_all (\<lambda>r. \<not> any_in (fst r) (lower U text)) (take i rules)
      \<longrightarrow> rule_based_classify U text = snd (rules ! i))
   \<and> (contains (str ''indemnify'') (lower U text)
        \<and> \<not> list_ex (\<lambda>w. contains (str w) (lower U text)) (earlier_keywords rules ''Indemnity'')
      \<longrightarrow> rule_based_classify U text = ''Indemnity'')
   \<and> (\<not> list_ex (\<lambda>w. contains (str w) (lower U text)) all_keywords
      \<longrightarrow> rule_based_classify U text = ''Other'')"
proof (intro conjI impI)
  assume "lower U a = lower U b"
  then show "rule_based_classify U a = rule_based_classify U b"
    by (simp add: rule_based_classify_def)
next
  assume h: "i < length rules \<and> any_in (fst (rules ! i)) (lower U text)
        \<and> list_all (\<lambda>r. \<not> any_in (fst r) (lower U text)) (take i rules)"
  let ?t = "lower U text"
  have split: "rules = take i rules @ rules ! i # drop (Suc i) rules"
    using h by (simp add: id_take_nth_drop)
  have "\<forall>r \<in> set (take i rules). \<not> any_in (fst r) ?t"
    using h by (simp add: list_all_iff)
  then have "first_rule (take i rules @ rules ! i # drop (Suc i) rules) ?t
     = first_rule (rules ! i # drop (Suc i) rules) ?t"
    by (rule first_rule_skip)
  also have "\<dots> = snd (rules ! i)"
    using h by (cases "rules ! i") simp
  finally show "rule_based_classify U text = snd (rules ! i)"
    using split by (simp add: rule_based_classify_def)
next
  assume "contains (str ''indemnify'') (lower U text)
        \<and> \<not> list_ex (\<lambda>w. contains (str w) (lower U text)) (earlier_keywords rules ''Indemnity'')"
  then show "rule_based_classify U text = ''Indemnity''"
    by (simp add: rule_based_classify_def rules_def any_in_def)
next
  assume "\<not> list_ex (\<lambda>w. contains (str w) (lower U text)) all_keywords"
  then have "\<forall>r \<in> set rules. \<not> any_in (fst r) (lower U text)"
    by (auto simp: all_keywords_def any_in_def list_ex_iff)
  then show "rule_based_classify U text = ''Other''"
    by (simp add: rule_based_classify_def first_rule_none)
qed

theorem rule_based_classify_first_match_witness:
  "rule_based_classify ascii_only (str ''Shall INDEMNIFY'') = rule_based_classify ascii_only (str ''shall indemnify'')
   \<and> rule_based_classify ascii_only (str ''The Contractor shall Indemnify the Employer'') = ''Indemnity''
   \<and> rule_based_classify ascii_only (str ''Pay the FEE by invoice'') = ''Payment Terms''
   \<and> rule_based_classify ascii_only (str ''Hello World'') = ''Other''"
proof -
  let ?U = ascii_only
  have a: "lower ?U (str ''Shall INDEMNIFY'') = lower ?U (str ''shall indemnify'')"
    by code_simp
  have b: "contains (str ''indemnify'') (lower ?U (str ''The Contractor shall Indemnify the Employer''))
        \<and> \<not> list_ex (\<lambda>w. contains (str w) (lower ?U (str ''The Contractor shall Indemnify the Employer''))) (earlier_keywords rules ''Indemnity'')"
    by code_simp
  have c: "5 < length rules \<and> any_in (fst (rules ! 5)) (lower ?U (str ''Pay the FEE by invoice''))
        \<and> list_all (\<lambda>r. \<not> any_in (fst r) (lower ?U (str ''Pay the FEE by invoice''))) (take 5 rules)"
    by code_simp
  have c': "snd (rules ! 5) = ''Payment Terms''" by code_simp
  have d: "\<not> list_ex (\<lambda>w. contains (str w) (lower ?U (str ''Hello World''))) all_keywords"
    by code_simp
  note T = rule_based_classify_first_match
  have w1: "rule_based_classify ?U (str ''Shall INDEMNIFY'') = rule_based_classify ?U (str ''shall indemnify'')"
    by (rule mp [OF conjunct1 [OF T] a])
  have w2: "rule_based_classify ?U (str ''Pay the FEE by invoice'') = snd (rules ! 5)"
    by (rule mp [OF conjunct1 [OF conjunct2 [OF T]] c])
  have w3: "rule_based_classify ?U (str ''The Contractor shall Indemnify the Employer'') = ''Indemnity''"
    by (rule mp [OF conjunct1 [OF conjunct2 [OF conjunct2 [OF T]]] b])
  have w4: "rule_based_classify ?U (str ''Hello World'') = ''Other''"
    by (rule mp [OF conjunct2 [OF conjunct2 [OF conjunct2 [OF T]]] d])
  show ?thesis
    using w1 w2 w3 w4 unfolding c' by (intro conjI)
qed
section \<open>Properties of the text normalizer\<close>

lemma replace_from_single:
  "replace_from [a] [b] s = map (\<lambda>c. if c = a then b else c) s"
proof (induction s)
  case Nil
  show ?case by simp
next
  case (Cons c cs)
  then show ?case by auto
qed

lemma replace_single: "replace [a] [b] s = map (\<lambda>c. if c = a then b else c) s"
  by (simp add: replace_def replace_from_single)

lemma replace_from_absent:
  "x \<in> set old \<Longrightarrow> x \<notin> set s \<Longrightarrow> replace_from old new s = s"
proof (induction s)
  case Nil
  show ?case by simp
next
  case (Cons c cs)
  have "\<not> prefix old (c # cs)"
    using Cons.prems set_mono_prefix by fastforce
  with Cons show ?case by simp
qed

lemma replace_absent: "x \<in> set old \<Longrightarrow> x \<notin> set s \<Longrightarrow> replace old new s = s"
  by (auto simp: replace_def replace_from_absent)

lemma tidy_collapse: "tidy (collapse_spaces s)"
proof (induction s rule: collapse_spaces.induct)
  case 1
  show ?case by simp
next
  case (2 c cs)
  show ?case
  proof (cases "is_space c")
    case True
    let ?r = "dropWhile is_space cs"
    have ih: "tidy (collapse_spaces ?r)" using 2 True by simp
    have eq: "collapse_spaces (c # cs) = 32 # collapse_spaces ?r" using True by simp
    show ?thesis
    proof (cases ?r)
      case Nil
      have "collapse_spaces (c # cs) = [32]" unfolding eq Nil by simp
      then show ?thesis by simp
    next
      case (Cons d ds)
      have nd: "\<not> is_space d"
        using hd_dropWhile[of is_space cs] Cons by simp
      have "collapse_spaces ?r = d # collapse_spaces ds" unfolding Cons using nd by simp
      with ih eq nd show ?thesis by simp
    qed
  next
    case False
    then have ih: "tidy (collapse_spaces cs)" using 2 by simp
    show ?thesis using False ih by (cases "collapse_spaces cs") auto
  qed
qed

lemma tidy_Cons: "tidy (c # cs) \<Longrightarrow> tidy cs"
  by (cases cs) auto

lemma tidy_space: "tidy s \<Longrightarrow> c \<in> set s \<Longrightarrow> is_space c \<Longrightarrow> c = 32"
  by (induction s rule: tidy.induct) auto

lemma collapse_tidy: "tidy s \<Longrightarrow> collapse_spaces s = s"
proof (induction s rule: tidy.induct)
  case 1 show ?case by simp
next
  case (2 c) then show ?case by simp
next
  case (3 c d cs)
  then show ?case by auto
qed

lemma tidy_suffix: "tidy (xs @ ys) \<Longrightarrow> tidy ys"
  by (induction xs) (auto dest: tidy_Cons)

lemma tidy_prefix: "tidy (xs @ ys) \<Longrightarrow> tidy xs"
proof (induction xs rule: tidy.induct)
  case 1 show ?case by simp
next
  case (2 c) then show ?case by (cases ys) auto
next
  case (3 c d cs) then show ?case by auto
qed

lemma tidy_strip: "tidy s \<Longrightarrow> tidy (strip s)"
proof -
  assume t: "tidy s"
  have "s = takeWhile is_space s @ lstrip s" by (simp add: lstrip_def)
  then have a: "tidy (lstrip s)" using t tidy_suffix by metis
  have "lstrip s = rstrip (lstrip s) @ rev (takeWhile is_space (rev (lstrip s)))"
    unfolding rstrip_def by (metis rev_append rev_rev_ident takeWhile_dropWhile_id)
  then show ?thesis unfolding strip_def using a tidy_prefix by metis
qed

lemma lstrip_strip: "lstrip (strip s) = strip s"
proof -
  let ?l = "lstrip s"
  show ?thesis
  proof (cases "rstrip ?l")
    case Nil
    then show ?thesis by (simp add: strip_def lstrip_def)
  next
    case (Cons c cs)
    have "?l \<noteq> []" using Cons by (auto simp: rstrip_def)
    then have "\<not> is_space (hd ?l)" unfolding lstrip_def by (rule hd_dropWhile)
    moreover have "prefix (rstrip ?l) ?l"
      unfolding rstrip_def by (metis prefix_def rev_append rev_rev_ident takeWhile_dropWhile_id)
    ultimately have "\<not> is_space c" using Cons by (auto simp: prefix_def)
    then show ?thesis using Cons by (simp add: strip_def lstrip_def[of "c # cs"])
  qed
qed

lemma rstrip_rstrip: "rstrip (rstrip s) = rstrip s"
  by (simp add: rstrip_def)

lemma strip_strip: "strip (strip s) = strip s"
proof -
  have "strip (strip s) = rstrip (lstrip (strip s))" by (simp add: strip_def)
  also have "\<dots> = rstrip (strip s)" by (simp add: lstrip_strip)
  also have "\<dots> = strip s" by (simp add: strip_def rstrip_rstrip)
  finally show ?thesis .
qed

lemma set_strip: "set (strip s) \<subseteq> set s"
proof -
  have "set (rstrip t) \<subseteq> set t" for t
    unfolding rstrip_def using set_dropWhileD by fastforce
  moreover have "set (lstrip t) \<subseteq> set t" for t
    unfolding lstrip_def using set_dropWhileD by fastforce
  ultimately show ?thesis unfolding strip_def by blast
qed

lemma replace_quote_map_tidy: "tidy s \<Longrightarrow> replace_all quote_map s = s"
proof -
  assume t: "tidy s"
  have n: "10 \<notin> set s"
  proof
    assume "10 \<in> set s"
    moreover have "is_space 10" by (simp add: is_space_def)
    ultimately have "(10::nat) = 32" using t tidy_space by blast
    then show False by simp
  qed
  have "replace [34] [34] s = s" by (simp add: replace_single)
  moreover have "replace quote_key2 [39] s = s"
    by (rule replace_absent[of 10]) (simp_all add: quote_key2_def n)
  ultimately show ?thesis by (simp add: quote_map_def)
qed

lemma clean_text_tidy: "tidy (clean_text s)"
  unfolding clean_text_def
  by (simp add: replace_quote_map_tidy tidy_collapse tidy_strip)

lemma clean_text_of_tidy:
  assumes "tidy r" and "strip r = r"
  shows "clean_text r = r"
proof -
  have a: "replace [160] [32] r = r"
  proof -
    have "\<forall>c \<in> set r. c \<noteq> 160"
      using tidy_space[OF assms(1)] by (fastforce simp: is_space_def)
    then show ?thesis by (simp add: replace_single map_idI)
  qed
  have b: "drop_controls r = r"
  proof -
    have "\<forall>c \<in> set r. c \<noteq> 13 \<and> c \<noteq> 12 \<and> c \<noteq> 11"
      using tidy_space[OF assms(1)] by (fastforce simp: is_space_def)
    then show ?thesis by (simp add: drop_controls_def)
  qed
  show ?thesis
    unfolding clean_text_def a b
    by (simp add: collapse_tidy assms replace_quote_map_tidy)
qed

text \<open>
  Claim C9. The text normalizer is idempotent: for every string \<open>s\<close>,
  \<open>clean_text (clean_text s) = clean_text s\<close>.
\<close>

theorem clean_text_idempotent: "clean_text (clean_text s) = clean_text s"
proof (rule clean_text_of_tidy)
  show "tidy (clean_text s)" by (rule clean_text_tidy)
  show "strip (clean_text s) = clean_text s"
    unfolding clean_text_def by (rule strip_strip)
qed

text \<open>
  Claim C2. The claim says that \<open>clean_text\<close> maps the curly quotation marks to straight
  ones, so that no curly quote is left in its output. The keys of \<open>quote_map\<close> in the source
  are straight quotes, so no curly quote is ever replaced: the text U+201C \<open>Hi\<close> U+201D and
  the text U+2018 U+2019 come back unchanged. The rest of the claim holds: the function is
  total and the empty string is mapped to the empty string.
\<close>

theorem clean_text_keeps_curly_quotes:
  "clean_text [8220, 72, 105, 8221] = [8220, 72, 105, 8221]
   \<and> list_ex is_curly_quote (clean_text [8220, 72, 105, 8221])
   \<and> clean_text [8216, 8217] = [8216, 8217]
   \<and> clean_text [] = []"
  by (simp add: clean_text_def strip_def lstrip_def rstrip_def replace_def quote_map_def
      quote_key2_def drop_controls_def is_space_def is_curly_quote_def)

section \<open>Auxiliary facts on strings and on the matcher\<close>

lemma strip_Nil: "strip [] = []"
  by (simp add: strip_def lstrip_def rstrip_def)

lemma strip_empty_iff: "strip s = [] \<longleftrightarrow> (\<forall>c \<in> set s. is_space c)"
proof
  assume e: "strip s = []"
  have a: "\<forall>x \<in> set (dropWhile is_space s). is_space x"
    using e by (simp add: strip_def rstrip_def lstrip_def dropWhile_eq_Nil_conv)
  have "dropWhile is_space s = []"
  proof (rule ccontr)
    assume ne: "dropWhile is_space s \<noteq> []"
    then have "\<not> is_space (hd (dropWhile is_space s))" by (rule hd_dropWhile)
    moreover have "hd (dropWhile is_space s) \<in> set (dropWhile is_space s)" using ne by simp
    ultimately show False using a by blast
  qed
  then show "\<forall>c \<in> set s. is_space c" by (simp add: dropWhile_eq_Nil_conv)
next
  assume "\<forall>c \<in> set s. is_space c"
  then have d: "dropWhile is_space s = []" by (simp add: dropWhile_eq_Nil_conv)
  show "strip s = []" unfolding strip_def lstrip_def d rstrip_def by simp
qed


section \<open>Properties of the clause segmenter\<close>

lemmas regex_eval = finditer_def finditer_from.simps char_before_def slice_def ws_plus_def
  ws_star_def str_def is_word_def is_alnum_def is_decimal_def ascii_only_def is_ascii_def
  ci_char_def ci_letter_def lower_ascii_def is_upper_ascii_def is_lower_ascii_def
  is_digit_ascii_def is_space_def Let_def

lemmas segment_eval = find_splits_def markers_def marker_matches_def normalize_breaks_def
  strip_def lstrip_def rstrip_def paragraph_clauses_def re_split_def blank_line_def
  lead_clause_def clean_up_def


lemma clean_up_length: "\<forall>c \<in> set (clean_up cs). 10 < length c"
  by (auto simp: clean_up_def)




lemma lead_clause_length: "length (clean_up (lead_clause t splits)) \<le> 1"
  by (auto simp: lead_clause_def clean_up_def split: list.splits)

lemma paragraph_clauses_length: "\<forall>p \<in> set (paragraph_clauses t). 20 < length p"
  by (auto simp: paragraph_clauses_def Let_def)


lemma segment_clauses_paragraph_path:
  assumes "strip t0 \<noteq> []" and "find_splits U (normalize_breaks t0) = []"
  shows "segment_clauses U t0 =
      (if paragraph_clauses (normalize_breaks t0) = [] then [normalize_breaks t0]
       else paragraph_clauses (normalize_breaks t0))"
proof -
  have "t0 \<noteq> []" using assms(1) by (auto simp: strip_def lstrip_def rstrip_def)
  then show ?thesis
    using assms by (simp add: segment_clauses_def Let_def)
qed

lemma collapse_nl_double: "collapse_nl (xs @ 10 # 10 # ys) = collapse_nl (xs @ 10 # ys)"
proof (induction xs rule: collapse_nl.induct)
  case 1
  show ?case by simp
next
  case (2 c cs)
  show ?case
  proof (cases "c = 10")
    case False
    with 2 show ?thesis by simp
  next
    case True
    show ?thesis
    proof (cases "\<forall>x \<in> set cs. x = 10")
      case True
      then have "dropWhile (\<lambda>x. x = 10) (cs @ zs) = dropWhile (\<lambda>x. x = 10) zs" for zs
        by (simp add: dropWhile_append2)
      then show ?thesis using \<open>c = 10\<close> by simp
    next
      case False
      then have "dropWhile (\<lambda>x. x = 10) (cs @ zs) = dropWhile (\<lambda>x. x = 10) cs @ zs" for zs
        by (auto simp: dropWhile_append1)
      then show ?thesis using 2(1) \<open>c = 10\<close> by simp
    qed
  qed
qed

lemma norm_cr_last_cr: "p \<noteq> [] \<Longrightarrow> last p = 13 \<Longrightarrow> \<exists>p'. norm_cr p = p' @ [10]"
proof (induction p rule: norm_cr.induct)
  case 1
  then show ?case by simp
next
  case (2 c cs)
  show ?case
  proof (cases "cs = []")
    case True
    with 2(3,4) show ?thesis by simp
  next
    case False
    then obtain d ds where cs: "cs = d # ds" by (cases cs) auto
    show ?thesis
    proof (cases "c = 13 \<and> d = 10")
      case True
      then have ne: "ds \<noteq> []" using 2(4) cs by auto
      then have "last ds = 13" using 2(4) cs by simp
      then obtain p' where "norm_cr ds = p' @ [10]" using 2(1) True cs ne by auto
      then have "norm_cr (c # cs) = (10 # p') @ [10]" using True cs by simp
      then show ?thesis by blast
    next
      case False
      have l: "last cs = 13" using 2(4) cs by simp
      have "\<exists>p'. norm_cr cs = p' @ [10]"
      proof (cases "c = 13")
        case True
        then show ?thesis using 2(1) False cs l by auto
      next
        case False
        then show ?thesis using 2(2) cs l by auto
      qed
      then obtain p' where p': "norm_cr cs = p' @ [10]" by blast
      have "norm_cr (c # cs) = ((if c = 13 then 10 else c) # p') @ [10]"
        using False cs p' by auto
      then show ?thesis by blast
    qed
  qed
qed

lemma norm_cr_append_nl:
  "norm_cr (p @ 10 # r) =
     (if p \<noteq> [] \<and> last p = 13 then norm_cr p @ norm_cr r else norm_cr p @ 10 # norm_cr r)"
proof (induction p rule: norm_cr.induct)
  case 1
  show ?case by simp
next
  case (2 c cs)
  show ?case
  proof (cases cs)
    case Nil
    then show ?thesis by simp
  next
    case (Cons d ds)
    show ?thesis
    proof (cases "c = 13")
      case False
      then show ?thesis using 2(2) Cons by simp
    next
      case True
      show ?thesis
      proof (cases "d = 10")
        case False
        then show ?thesis using 2(1) True Cons by simp
      next
        case d: True
        have "norm_cr ((c # cs) @ 10 # r) = 10 # norm_cr (ds @ 10 # r)"
          using True d Cons by simp
        also have "norm_cr (ds @ 10 # r) =
            (if ds \<noteq> [] \<and> last ds = 13 then norm_cr ds @ norm_cr r else norm_cr ds @ 10 # norm_cr r)"
          using 2(1) True d Cons by simp
        finally show ?thesis using True d Cons by auto
      qed
    qed
  qed
qed

lemma normalize_breaks_blank_line:
  "normalize_breaks (p @ 10 # 10 # q) = normalize_breaks (p @ 10 # q)"
proof (cases "p \<noteq> [] \<and> last p = 13")
  case True
  then obtain p' where p': "norm_cr p = p' @ [10]" using norm_cr_last_cr by blast
  have "norm_cr (p @ 10 # 10 # q) = p' @ 10 # 10 # norm_cr q"
    using True p' by (simp add: norm_cr_append_nl)
  moreover have "norm_cr (p @ 10 # q) = p' @ 10 # norm_cr q"
    using True p' by (simp add: norm_cr_append_nl)
  ultimately show ?thesis
    by (simp add: normalize_breaks_def collapse_nl_double)
next
  case False
  have "norm_cr (p @ 10 # 10 # q) = norm_cr p @ 10 # 10 # norm_cr q"
    using False by (simp add: norm_cr_append_nl)
  moreover have "norm_cr (p @ 10 # q) = norm_cr p @ 10 # norm_cr q"
    using False by (simp add: norm_cr_append_nl)
  ultimately show ?thesis
    by (simp add: normalize_breaks_def collapse_nl_double)
qed

lemma segment_clauses_normalized:
  assumes "strip s \<noteq> []" and "strip t \<noteq> []" and "normalize_breaks s = normalize_breaks t"
  shows "segment_clauses U s = segment_clauses U t"
proof -
  have "s \<noteq> []" "t \<noteq> []" using assms(1,2) strip_Nil by auto
  then show ?thesis using assms by (simp add: segment_clauses_def)
qed


text \<open>
  Claim C1. The list returned by \<open>segment_clauses\<close> is never empty. The paragraph
  fallback, however, does not split at blank lines: the second \<open>re.sub\<close> has already
  replaced every run of line feeds by one line feed when \<open>re.split(r'\n\s*\n+', text)\<close>
  looks for a line feed followed by another one, so a text with an empty line between two
  parts is segmented exactly as the text with a single line break there. Two paragraphs
  of 28 and 29 characters with an empty line between them come back as one clause; they
  are split only when the line between them holds a space. The text that reaches
  \<open>segment_clauses\<close> from \<open>preprocess_contract_text\<close> has been through \<open>clean_text\<close>,
  which leaves no line break at all, and the two paragraphs come back as one clause there
  too.
\<close>

theorem segment_clauses_blank_line_not_split:
  "segment_clauses U t \<noteq> []
   \<and> segment_clauses U (p @ [10, 10] @ q) =
       (if strip (p @ q) = [] then [p @ [10, 10] @ q] else segment_clauses U (p @ [10] @ q))
   \<and> segment_clauses ascii_only
         (str ''First paragraph of the text.'' @ [10, 10] @ str ''Second paragraph of the text.'')
       = [str ''First paragraph of the text.'' @ [10] @ str ''Second paragraph of the text.'']
   \<and> segment_clauses ascii_only
         (str ''First paragraph of the text.'' @ [10, 32, 10] @ str ''Second paragraph of the text.'')
       = [str ''First paragraph of the text.'', str ''Second paragraph of the text.'']
   \<and> segment_clauses ascii_only
         (clean_text (str ''First paragraph of the text.'' @ [10, 10] @ str ''Second paragraph of the text.''))
       = [str ''First paragraph of the text.'' @ [32] @ str ''Second paragraph of the text.'']"
proof -
  let ?U = ascii_only
  let ?a = "str ''First paragraph of the text.''"
  let ?b = "str ''Second paragraph of the text.''"
  have c1: "segment_clauses U t \<noteq> []"
    by (simp add: segment_clauses_def Let_def)
  have c2: "segment_clauses V (p @ [10, 10] @ q) =
       (if strip (p @ q) = [] then [p @ [10, 10] @ q] else segment_clauses V (p @ [10] @ q))"
    for V p q
  proof (cases "strip (p @ q) = []")
    case True
    then have "strip (p @ [10, 10] @ q) = []"
      by (auto simp: strip_empty_iff is_space_def)
    then show ?thesis using True by (simp add: segment_clauses_def)
  next
    case False
    then have ne: "strip (p @ [10, 10] @ q) \<noteq> []" "strip (p @ [10] @ q) \<noteq> []"
      by (auto simp: strip_empty_iff)
    have "normalize_breaks (p @ [10, 10] @ q) = normalize_breaks (p @ [10] @ q)"
      using normalize_breaks_blank_line[of p q] by simp
    then have "segment_clauses V (p @ [10, 10] @ q) = segment_clauses V (p @ [10] @ q)"
      by (rule segment_clauses_normalized[OF ne])
    then show ?thesis using False by simp
  qed
  have n1: "normalize_breaks (?a @ [10] @ ?b) = ?a @ [10] @ ?b"
    by (simp add: normalize_breaks_def str_def)
  have s1: "find_splits ?U (?a @ [10] @ ?b) = []"
    by (simp add: segment_eval regex_eval)
  have p1: "paragraph_clauses (?a @ [10] @ ?b) = [?a @ [10] @ ?b]"
    by (simp add: segment_eval regex_eval)
  have e1: "strip (?a @ [10] @ ?b) \<noteq> []"
    by (simp add: strip_empty_iff str_def is_space_def)
  have e0: "strip (?a @ ?b) \<noteq> []"
    by (simp add: strip_empty_iff str_def is_space_def)
  have r1: "segment_clauses ?U (?a @ [10] @ ?b) = [?a @ [10] @ ?b]"
    using segment_clauses_paragraph_path[of "?a @ [10] @ ?b" ?U] e1 unfolding n1 s1 p1 by simp
  have c3: "segment_clauses ?U (?a @ [10, 10] @ ?b) = [?a @ [10] @ ?b]"
    using c2[of ?U ?a ?b] e0 r1 by simp
  have n2: "normalize_breaks (?a @ [10, 32, 10] @ ?b) = ?a @ [10, 32, 10] @ ?b"
    by (simp add: normalize_breaks_def str_def)
  have s2: "find_splits ?U (?a @ [10, 32, 10] @ ?b) = []"
    by (simp add: segment_eval regex_eval)
  have p2: "paragraph_clauses (?a @ [10, 32, 10] @ ?b) = [?a, ?b]"
    by (simp add: segment_eval regex_eval)
  have e2: "strip (?a @ [10, 32, 10] @ ?b) \<noteq> []"
    by (simp add: strip_empty_iff str_def is_space_def)
  have c4: "segment_clauses ?U (?a @ [10, 32, 10] @ ?b) = [?a, ?b]"
    using segment_clauses_paragraph_path[of "?a @ [10, 32, 10] @ ?b" ?U] e2
    unfolding n2 s2 p2 by simp
  have k: "clean_text (?a @ [10, 10] @ ?b) = ?a @ [32] @ ?b"
    by (simp add: clean_text_def replace_def drop_controls_def quote_map_def quote_key2_def
        strip_def lstrip_def rstrip_def is_space_def str_def)
  have n3: "normalize_breaks (?a @ [32] @ ?b) = ?a @ [32] @ ?b"
    by (simp add: normalize_breaks_def str_def)
  have s3: "find_splits ?U (?a @ [32] @ ?b) = []"
    by (simp add: segment_eval regex_eval)
  have p3: "paragraph_clauses (?a @ [32] @ ?b) = [?a @ [32] @ ?b]"
    by (simp add: segment_eval regex_eval)
  have e3: "strip (?a @ [32] @ ?b) \<noteq> []"
    by (simp add: strip_empty_iff str_def is_space_def)
  have c5: "segment_clauses ?U (clean_text (?a @ [10, 10] @ ?b)) = [?a @ [32] @ ?b]"
    using segment_clauses_paragraph_path[of "?a @ [32] @ ?b" ?U] e3
    unfolding k n3 s3 p3 by simp
  show ?thesis using c1 c2[of U p q] c3 c4 c5 by (intro conjI)
qed





section \<open>Properties of the legal term extractor\<close>











































section \<open>Properties of the language simplification\<close>

lemma simplify_text_no_capability:
  assumes "simplifier st = None" and "has_hf E \<and> \<not> load_attempted st \<longrightarrow> pipeline E = None"
  shows "fst (simplify_text U E st t0 max_length level) = t0"
  using assms by (auto simp: simplify_text_def ensure_simplifier_loaded_def Let_def)

lemma simplify_text_few_words:
  assumes "length (split t0) \<le> 10"
  shows "fst (simplify_text U E st t0 max_length level) = t0"
  using assms by (auto simp: simplify_text_def Let_def split: option.splits)

text \<open>
  Claim C7. When no paraphrasing capability is available (\<open>_simplifier\<close> is \<open>None\<close> and the
  automatic load cannot set it: \<open>transformers\<close> is missing, or a load has been attempted
  before, or the load fails), \<open>simplify_text\<close> returns its input, for every input and
  every level. Whatever the capability, an input of at most 10 words, and so every input
  of fewer than 10 words, is returned as it is.
\<close>

theorem simplify_text_unchanged:
  "(simplifier st = None \<and> (has_hf E \<and> \<not> load_attempted st \<longrightarrow> pipeline E = None)
      \<longrightarrow> fst (simplify_text U E st t0 max_length level) = t0)
   \<and> (length (split t0) \<le> 10 \<longrightarrow> fst (simplify_text U E st t0 max_length level) = t0)"
  using simplify_text_no_capability[of st E U t0 max_length level]
    simplify_text_few_words[of t0 U E st max_length level]
  by blast

lemmas simplify_eval = simplify_text_def simplify_sentence_def level_params_def
  ensure_simplifier_loaded_def aggressive_simplification_def moderate_simplification_def
  aggressive_replacements_def moderate_replacements_def split_def strip_def lstrip_def
  rstrip_def replace_def is_space_def is_alnum_def is_ascii_def is_upper_ascii_def
  is_lower_ascii_def is_digit_ascii_def upper_ascii_def lower_ascii_def ascii_only_def
  str_def Let_def

theorem simplify_text_unchanged_witness:
  "fst (simplify_text ascii_only
      \<lparr> has_hf = False, pipeline = Some (\<lambda>i s n t. Summary (str ''The fee is due today.'')),
        nltk = \<lparr> sent_tokenize = (\<lambda>t. Some [t]), word_tokenize = (\<lambda>t. None) \<rparr>,
        mul_trunc = (\<lambda>n r. n) \<rparr>
      \<lparr> simplifier = None, load_attempted = False \<rparr>
      (str ''The party of the first part shall pay the fee stated herein today.'') 60
      (str ''advanced''))
     = str ''The party of the first part shall pay the fee stated herein today.''
   \<and> fst (simplify_text ascii_only
      \<lparr> has_hf = True, pipeline = None,
        nltk = \<lparr> sent_tokenize = (\<lambda>t. Some [t]), word_tokenize = (\<lambda>t. None) \<rparr>,
        mul_trunc = (\<lambda>n r. n) \<rparr>
      \<lparr> simplifier = Some (\<lambda>i s n t. Summary (str ''The fee is due today.'')), load_attempted = True \<rparr>
      (str ''The party shall pay the fee stated herein here today.'') 60 (str ''basic''))
     = str ''The party shall pay the fee stated herein here today.''
   \<and> fst (simplify_text ascii_only
      \<lparr> has_hf = True, pipeline = None,
        nltk = \<lparr> sent_tokenize = (\<lambda>t. Some [t]), word_tokenize = (\<lambda>t. None) \<rparr>,
        mul_trunc = (\<lambda>n r. n) \<rparr>
      \<lparr> simplifier = Some (\<lambda>i s n t. Summary (str ''The fee is due today.'')), load_attempted = True \<rparr>
      (str ''The party of the first part shall pay the fee stated herein today.'') 60
      (str ''basic''))
     = str ''The fee is due today.''"
proof -
  let ?sim = "\<lambda>(i::nat) (s::ustring) (n::nat) (t::rat). Summary (str ''The fee is due today.'')"
  let ?E0 = "\<lparr> has_hf = False, pipeline = Some ?sim,
        nltk = \<lparr> sent_tokenize = (\<lambda>t. Some [t]), word_tokenize = (\<lambda>t. None) \<rparr>,
        mul_trunc = (\<lambda>n r. n) \<rparr>"
  let ?E1 = "\<lparr> has_hf = True, pipeline = None,
    nltk = \<lparr> sent_tokenize = (\<lambda>t. Some [t]), word_tokenize = (\<lambda>t. None) \<rparr>,
    
        mul_trunc = (\<lambda>n r. n) \<rparr>"
  let ?s0 = "\<lparr> simplifier = None, load_attempted = False \<rparr>"
  let ?s1 = "\<lparr> simplifier = Some ?sim, load_attempted = True \<rparr>"
  let ?long = "str ''The party of the first part shall pay the fee stated herein today.''"
  let ?ten = "str ''The party shall pay the fee stated herein here today.''"
  note T = simplify_text_unchanged
  have h1: "simplifier ?s0 = None \<and> (has_hf ?E0 \<and> \<not> load_attempted ?s0 \<longrightarrow> pipeline ?E0 = None)"
    by simp
  have w1: "fst (simplify_text ascii_only ?E0 ?s0 ?long 60 (str ''advanced'')) = ?long"
    by (rule mp [OF conjunct1 [OF T] h1])
  have h2: "length (split ?ten) \<le> 10"
    by (simp add: split_def str_def is_space_def)
  have w2: "fst (simplify_text ascii_only ?E1 ?s1 ?ten 60 (str ''basic'')) = ?ten"
    by (rule mp [OF conjunct2 [OF T] h2])
  have w3: "fst (simplify_text ascii_only ?E1 ?s1 ?long 60 (str ''basic''))
      = str ''The fee is due today.''"
    by (simp add: simplify_eval)
  show ?thesis using w1 w2 w3 by (intro conjI)
qed

lemma simplify_sentence_unknown:
  assumes "level \<noteq> str ''basic''" "level \<noteq> str ''intermediate''" "level \<noteq> str ''advanced''"
  shows "simplify_sentence U E sim level i sent =
     (if length (strip sent) < 20 then sent
      else case sim i sent (max 15 (min (mul_trunc E (length (split sent)) (55 / 100)) 50)) 1 of
             Summary out \<Rightarrow>
               if 5 < length (strip out) \<and> 2 * length (strip out) \<le> 3 * length sent
               then strip out else sent
           | _ \<Rightarrow> sent)"
  using assms by (simp add: simplify_sentence_def level_params_def Let_def split: outcome.splits)

lemma simplify_sentence_as_advanced:
  assumes "level \<noteq> str ''basic''" "level \<noteq> str ''intermediate''"
    and "\<forall>n out. sim i sent n 1 = Summary out \<longrightarrow>
           aggressive_simplification U (strip out) 20 = strip out"
  shows "simplify_sentence U E sim level i sent = simplify_sentence U E sim (str ''advanced'') i sent"
proof (cases "level = str ''advanced''")
  case True
  then show ?thesis by simp
next
  case False
  have a: "str ''advanced'' \<noteq> str ''basic''" "str ''advanced'' \<noteq> str ''intermediate''"
    by (simp_all add: str_def)
  show ?thesis
    using assms False a
    by (auto simp: simplify_sentence_def level_params_def Let_def split: outcome.splits)
qed

text \<open>
  Claim C10, as the code has it. A level other than \<open>basic\<close> and \<open>intermediate\<close> is not
  rejected, and it selects the parameters of \<open>advanced\<close>: the pipeline is called with
  temperature 1.0 and with the \<open>max_length\<close> computed from the ratio 0.55. The
  post-processing of \<open>advanced\<close>, however, which cuts the summary to the 20-word budget and
  replaces the legal terms, runs only when the level is the string \<open>advanced\<close>: for any
  other such level the stripped summary is taken as it is. So the result for such a level
  is the result for \<open>advanced\<close> whenever that post-processing changes no summary that the
  pipeline returns.
\<close>

theorem simplify_text_unknown_level:
  assumes "level \<noteq> str ''basic''" and "level \<noteq> str ''intermediate''"
  shows "level_params level = (1, 55 / 100, 20)
   \<and> (level \<noteq> str ''advanced'' \<longrightarrow>
        simplify_sentence U E sim level i sent =
          (if length (strip sent) < 20 then sent
           else case sim i sent (max 15 (min (mul_trunc E (length (split sent)) (55 / 100)) 50)) 1 of
                  Summary out \<Rightarrow>
                    if 5 < length (strip out) \<and> 2 * length (strip out) \<le> 3 * length sent
                    then strip out else sent
                | _ \<Rightarrow> sent))
   \<and> ((\<forall>f j s n out. (simplifier st = Some f \<or> pipeline E = Some f) \<and> f j s n 1 = Summary out
          \<longrightarrow> aggressive_simplification U (strip out) 20 = strip out)
        \<longrightarrow> simplify_text U E st t0 max_length level
            = simplify_text U E st t0 max_length (str ''advanced''))"
proof (intro conjI impI)
  show "level_params level = (1, 55 / 100, 20)"
    using assms by (simp add: level_params_def)
next
  assume "level \<noteq> str ''advanced''"
  then show "simplify_sentence U E sim level i sent =
          (if length (strip sent) < 20 then sent
           else case sim i sent (max 15 (min (mul_trunc E (length (split sent)) (55 / 100)) 50)) 1 of
                  Summary out \<Rightarrow>
                    if 5 < length (strip out) \<and> 2 * length (strip out) \<le> 3 * length sent
                    then strip out else sent
                | _ \<Rightarrow> sent)"
    by (rule simplify_sentence_unknown[OF assms(1) assms(2)])
next
  assume h: "\<forall>f j s n out. (simplifier st = Some f \<or> pipeline E = Some f) \<and> f j s n 1 = Summary out
          \<longrightarrow> aggressive_simplification U (strip out) 20 = strip out"
  let ?st1 = "if has_hf E \<and> simplifier st = None \<and> \<not> load_attempted st
              then snd (ensure_simplifier_loaded E st) else st"
  have src: "simplifier ?st1 = Some f \<Longrightarrow> simplifier st = Some f \<or> pipeline E = Some f" for f
    by (auto simp: ensure_simplifier_loaded_def split: if_splits)
  have eq: "simplify_sentence U E f level j s = simplify_sentence U E f (str ''advanced'') j s"
    if "simplifier ?st1 = Some f" for f j s
  proof (rule simplify_sentence_as_advanced[OF assms])
    show "\<forall>n out. f j s n 1 = Summary out \<longrightarrow> aggressive_simplification U (strip out) 20 = strip out"
      using h src[OF that] by blast
  qed
  show "simplify_text U E st t0 max_length level
      = simplify_text U E st t0 max_length (str ''advanced'')"
  proof (cases "simplifier ?st1")
    case None
    then show ?thesis by (simp add: simplify_text_def Let_def)
  next
    case (Some f)
    have "simplify_sentence U E f level = simplify_sentence U E f (str ''advanced'')"
      using eq[OF Some] by (intro ext)
    then show ?thesis using Some by (simp add: simplify_text_def Let_def cong: option.case_cong)
  qed
qed

theorem simplify_text_unknown_level_witness:
  "level_params (str ''extreme'') = (1, 55 / 100, 20)
   \<and> simplify_sentence ascii_only
        \<lparr> has_hf = True, pipeline = None,
          nltk = \<lparr> sent_tokenize = (\<lambda>t. Some [t]), word_tokenize = (\<lambda>t. None) \<rparr>,
          
          mul_trunc = (\<lambda>n r. if r = 55 / 100 then 40 else 7) \<rparr>
        (\<lambda>i s n t. if t = 1 \<and> n = 40 then Summary (str ''The fee is due today.'')
                   else Summary (str ''Something else is said.''))
        (str ''extreme'') 0 (str ''The party of the first part shall pay the fee stated herein today.'')
      = str ''The fee is due today.''
   \<and> simplify_text ascii_only
        \<lparr> has_hf = True, pipeline = None,
          nltk = \<lparr> sent_tokenize = (\<lambda>t. Some [t]), word_tokenize = (\<lambda>t. None) \<rparr>,
          
          mul_trunc = (\<lambda>n r. if r = 55 / 100 then 40 else 7) \<rparr>
        \<lparr> simplifier = Some (\<lambda>i s n t. if t = 1 \<and> n = 40 then Summary (str ''The fee is due today.'')
                   else Summary (str ''Something else is said.'')), load_attempted = True \<rparr>
        (str ''The party of the first part shall pay the fee stated herein today.'') 60 (str ''extreme'')
      = simplify_text ascii_only
        \<lparr> has_hf = True, pipeline = None,
          nltk = \<lparr> sent_tokenize = (\<lambda>t. Some [t]), word_tokenize = (\<lambda>t. None) \<rparr>,
          
          mul_trunc = (\<lambda>n r. if r = 55 / 100 then 40 else 7) \<rparr>
        \<lparr> simplifier = Some (\<lambda>i s n t. if t = 1 \<and> n = 40 then Summary (str ''The fee is due today.'')
                   else Summary (str ''Something else is said.'')), load_attempted = True \<rparr>
        (str ''The party of the first part shall pay the fee stated herein today.'') 60 (str ''advanced'')"
proof -
  let ?U = ascii_only
  let ?sim = "\<lambda>(i::nat) (s::ustring) (n::nat) (t::rat).
     if t = 1 \<and> n = 40 then Summary (str ''The fee is due today.'')
     else Summary (str ''Something else is said.'')"
  let ?E = "\<lparr> has_hf = True, pipeline = None,
    nltk = \<lparr> sent_tokenize = (\<lambda>t. Some [t]), word_tokenize = (\<lambda>t. None) \<rparr>,
    
          mul_trunc = (\<lambda>(n::nat) (r::rat). if r = 55 / 100 then 40 else (7::nat)) \<rparr>"
  let ?st = "\<lparr> simplifier = Some ?sim, load_attempted = True \<rparr>"
  let ?long = "str ''The party of the first part shall pay the fee stated herein today.''"
  have l1: "str ''extreme'' \<noteq> str ''basic''" by (simp add: str_def)
  have l2: "str ''extreme'' \<noteq> str ''intermediate''" by (simp add: str_def)
  have l3: "str ''extreme'' \<noteq> str ''advanced''" by (simp add: str_def)
  note T = simplify_text_unknown_level [OF l1 l2, of ?U ?E ?sim 0 ?long ?st ?long 60]
  have w1: "level_params (str ''extreme'') = (1, 55 / 100, 20)"
    by (rule conjunct1 [OF T])
  have sl: "\<not> length (strip ?long) < 20"
    by (simp add: strip_def lstrip_def rstrip_def is_space_def str_def)
  have sp: "length (split ?long) = 13"
    by (simp add: split_def is_space_def str_def)
  have so: "strip (str ''The fee is due today.'') = str ''The fee is due today.''"
    by (simp add: strip_def lstrip_def rstrip_def is_space_def str_def)
  have w2: "simplify_sentence ?U ?E ?sim (str ''extreme'') 0 ?long = str ''The fee is due today.''"
    using mp [OF conjunct1 [OF conjunct2 [OF T]] l3] sl unfolding sp
    by (simp add: so) (simp add: str_def)
  have ag: "aggressive_simplification ?U (str ''The fee is due today.'') 20 = str ''The fee is due today.''"
    by (simp add: simplify_eval)
  have ag2: "aggressive_simplification ?U (str ''Something else is said.'') 20 = str ''Something else is said.''"
    by (simp add: simplify_eval)
  have so2: "strip (str ''Something else is said.'') = str ''Something else is said.''"
    by (simp add: strip_def lstrip_def rstrip_def is_space_def str_def)
  have h: "\<forall>f j s n out. (simplifier ?st = Some f \<or> pipeline ?E = Some f) \<and> f j s n 1 = Summary out
          \<longrightarrow> aggressive_simplification ?U (strip out) 20 = strip out"
    using ag ag2 so so2 by (auto split: if_splits)
  have w3: "simplify_text ?U ?E ?st ?long 60 (str ''extreme'')
      = simplify_text ?U ?E ?st ?long 60 (str ''advanced'')"
    by (rule mp [OF conjunct2 [OF conjunct2 [OF T]] h])
  show ?thesis using w1 w2 w3 by (intro conjI)
qed

text \<open>
  The claim C10 as it is written says that such a level is treated as \<open>advanced\<close>, the
  20-word budget included. With a pipeline that returns a summary holding \<open>herein\<close>, the
  level \<open>extreme\<close> returns the summary as it is and \<open>advanced\<close> returns it with \<open>here\<close>;
  with a pipeline that returns a summary of 21 words, \<open>extreme\<close> returns the 21 words and
  \<open>advanced\<close> the first 20 and a full stop.
\<close>

theorem simplify_text_unknown_level_counterexample:
  "fst (simplify_text ascii_only
        \<lparr> has_hf = True, pipeline = None,
          nltk = \<lparr> sent_tokenize = (\<lambda>t. Some [t]), word_tokenize = (\<lambda>t. None) \<rparr>,
        mul_trunc = (\<lambda>n r. n) \<rparr>
        \<lparr> simplifier = Some (\<lambda>i s n t. Summary (str ''The fee stated herein is due.'')),
          load_attempted = True \<rparr>
        (str ''The party of the first part shall pay the fee stated herein today.'') 60 (str ''extreme''))
      = str ''The fee stated herein is due.''
   \<and> fst (simplify_text ascii_only
        \<lparr> has_hf = True, pipeline = None,
          nltk = \<lparr> sent_tokenize = (\<lambda>t. Some [t]), word_tokenize = (\<lambda>t. None) \<rparr>,
        mul_trunc = (\<lambda>n r. n) \<rparr>
        \<lparr> simplifier = Some (\<lambda>i s n t. Summary (str ''The fee stated herein is due.'')),
          load_attempted = True \<rparr>
        (str ''The party of the first part shall pay the fee stated herein today.'') 60 (str ''advanced''))
      = str ''The fee stated here is due.''
   \<and> fst (simplify_text ascii_only
        \<lparr> has_hf = True, pipeline = None,
          nltk = \<lparr> sent_tokenize = (\<lambda>t. Some [t]), word_tokenize = (\<lambda>t. None) \<rparr>,
        mul_trunc = (\<lambda>n r. n) \<rparr>
        \<lparr> simplifier = Some (\<lambda>i s n t. Summary (str ''a b c d e f g h i j k l m n o p q r s t u'')),
          load_attempted = True \<rparr>
        (str ''The party of the first part shall pay the fee stated herein today.'') 60 (str ''extreme''))
      = str ''a b c d e f g h i j k l m n o p q r s t u''
   \<and> fst (simplify_text ascii_only
        \<lparr> has_hf = True, pipeline = None,
          nltk = \<lparr> sent_tokenize = (\<lambda>t. Some [t]), word_tokenize = (\<lambda>t. None) \<rparr>,
        mul_trunc = (\<lambda>n r. n) \<rparr>
        \<lparr> simplifier = Some (\<lambda>i s n t. Summary (str ''a b c d e f g h i j k l m n o p q r s t u'')),
          load_attempted = True \<rparr>
        (str ''The party of the first part shall pay the fee stated herein today.'') 60 (str ''advanced''))
      = str ''a b c d e f g h i j k l m n o p q r s t.''"
proof -
  have a: "fst (simplify_text ascii_only
        \<lparr> has_hf = True, pipeline = None,
          nltk = \<lparr> sent_tokenize = (\<lambda>t. Some [t]), word_tokenize = (\<lambda>t. None) \<rparr>,
        mul_trunc = (\<lambda>n r. n) \<rparr>
        \<lparr> simplifier = Some (\<lambda>i s n t. Summary (str ''The fee stated herein is due.'')),
          load_attempted = True \<rparr>
        (str ''The party of the first part shall pay the fee stated herein today.'') 60 (str ''extreme''))
      = str ''The fee stated herein is due.''"
    by (simp add: simplify_eval)
  have b: "fst (simplify_text ascii_only
        \<lparr> has_hf = True, pipeline = None,
          nltk = \<lparr> sent_tokenize = (\<lambda>t. Some [t]), word_tokenize = (\<lambda>t. None) \<rparr>,
        mul_trunc = (\<lambda>n r. n) \<rparr>
        \<lparr> simplifier = Some (\<lambda>i s n t. Summary (str ''The fee stated herein is due.'')),
          load_attempted = True \<rparr>
        (str ''The party of the first part shall pay the fee stated herein today.'') 60 (str ''advanced''))
      = str ''The fee stated here is due.''"
    by (simp add: simplify_eval)
  have c: "fst (simplify_text ascii_only
        \<lparr> has_hf = True, pipeline = None,
          nltk = \<lparr> sent_tokenize = (\<lambda>t. Some [t]), word_tokenize = (\<lambda>t. None) \<rparr>,
        mul_trunc = (\<lambda>n r. n) \<rparr>
        \<lparr> simplifier = Some (\<lambda>i s n t. Summary (str ''a b c d e f g h i j k l m n o p q r s t u'')),
          load_attempted = True \<rparr>
        (str ''The party of the first part shall pay the fee stated herein today.'') 60 (str ''extreme''))
      = str ''a b c d e f g h i j k l m n o p q r s t u''"
    by (simp add: simplify_eval)
  have d: "fst (simplify_text ascii_only
        \<lparr> has_hf = True, pipeline = None,
          nltk = \<lparr> sent_tokenize = (\<lambda>t. Some [t]), word_tokenize = (\<lambda>t. None) \<rparr>,
        mul_trunc = (\<lambda>n r. n) \<rparr>
        \<lparr> simplifier = Some (\<lambda>i s n t. Summary (str ''a b c d e f g h i j k l m n o p q r s t u'')),
          load_attempted = True \<rparr>
        (str ''The party of the first part shall pay the fee stated herein today.'') 60 (str ''advanced''))
      = str ''a b c d e f g h i j k l m n o p q r s t.''"
    by (simp add: simplify_eval)
  show ?thesis using a b c d by (intro conjI)
qed

section \<open>Properties of the reading ease\<close>

lemma count_syllables_short:
  assumes "length w \<le> 1"
  shows "max 1 (vowel_groups False (if w \<noteq> [] \<and> last w = 101 then butlast w else w)) = 1"
proof (cases w)
  case Nil
  then show ?thesis by simp
next
  case (Cons c cs)
  then have "cs = []" using assms by simp
  then show ?thesis using Cons by (simp add: is_vowel_def)
qed

lemma count_syllables_groups:
  "count_syllables U word0 =
     max 1 (vowel_groups False
       (if lower U word0 \<noteq> [] \<and> last (lower U word0) = 101 then butlast (lower U word0)
        else lower U word0))"
proof (cases "length (lower U word0) \<le> 1")
  case True
  then show ?thesis
    using count_syllables_short[OF True] by (simp add: count_syllables_def)
next
  case False
  then have "lower U word0 \<noteq> []" by auto
  then show ?thesis using False by (simp add: count_syllables_def Let_def)
qed

lemma round_half_even_bounds:
  assumes "0 \<le> y" and "y \<le> of_int n"
  shows "0 \<le> round_half_even y \<and> round_half_even y \<le> n"
proof -
  let ?f = "\<lfloor>y\<rfloor>"
  have f0: "0 \<le> ?f" using assms(1) by simp
  have fn: "?f \<le> n" using assms(2) by (simp add: floor_le_iff)
  have up: "?f + 1 \<le> n" if "y \<noteq> of_int ?f"
  proof -
    have "of_int ?f < y" using that of_int_floor_le[of y] by linarith
    then have "of_int ?f < (of_int n :: rat)" using assms(2) by linarith
    then show ?thesis by simp
  qed
  show ?thesis
    using f0 fn up by (auto simp: round_half_even_def Let_def)
qed

lemma exact_score_bounds:
  "0 \<le> reading_ease_score exact_floats w s y \<and> reading_ease_score exact_floats w s y \<le> 100"
proof -
  define x :: rat where
    "x = max (min (206835 / 1000 - 1015 / 1000 * (of_nat w / of_nat (max s 1))
           - 846 / 10 * (of_nat y / of_nat (max w 1))) 100) 0"
  have r: "reading_ease_score exact_floats w s y = of_int (round_half_even (x * 100)) / 100"
    by (simp only: reading_ease_score_def exact_floats_def x_def Let_def floats.select_convs)
  have "0 \<le> x * 100" and "x * 100 \<le> of_int 10000"
    by (simp_all add: x_def)
  then have "0 \<le> round_half_even (x * 100) \<and> round_half_even (x * 100) \<le> 10000"
    by (rule round_half_even_bounds)
  then show ?thesis unfolding r by simp
qed

text \<open>
  Claim C8, as the code has it. \<open>calculate_reading_ease\<close> returns a number for every input:
  0.0 for an empty or all-whitespace text, 0.0 when a tokenizer raises, and 0.0 when the
  text has no sentence or no token that \<open>isalpha\<close> accepts. In every other case it is
  \<open>206.835 - 1.015 * (words / sentences) - 84.6 * (syllables / words)\<close>, in the floating-point
  arithmetic of the interpreter, clamped to the interval from 0 to 100 and rounded to 2
  decimals; in exact arithmetic the result lies between 0 and 100. The syllables of a word
  are the vowel groups of the lower-cased word without one trailing \<open>e\<close>, and at least 1.
\<close>

theorem calculate_reading_ease_cases:
  "(strip t0 = [] \<longrightarrow> calculate_reading_ease U F N t0 = 0)
   \<and> (sent_tokenize N t0 = None \<or> word_tokenize N t0 = None \<longrightarrow>
        calculate_reading_ease U F N t0 = 0)
   \<and> (\<forall>sentences tokens.
        sent_tokenize N t0 = Some sentences \<and> word_tokenize N t0 = Some tokens \<longrightarrow>
          (sentences = [] \<or> filter (isalpha U) tokens = [] \<longrightarrow>
             calculate_reading_ease U F N t0 = 0)
        \<and> (strip t0 \<noteq> [] \<and> sentences \<noteq> [] \<and> filter (isalpha U) tokens \<noteq> [] \<longrightarrow>
             calculate_reading_ease U F N t0 =
               round2 F (max (min
                 (fsub F
                    (fsub F (literal F (206835 / 1000))
                       (fmul F (literal F (1015 / 1000))
                          (int_div F (length (filter (isalpha U) tokens)) (length sentences))))
                    (fmul F (literal F (846 / 10))
                       (int_div F (sum_list (map (count_syllables U) (filter (isalpha U) tokens)))
                          (length (filter (isalpha U) tokens)))))
                 100) 0)))
   \<and> 0 \<le> calculate_reading_ease U exact_floats N t0
   \<and> calculate_reading_ease U exact_floats N t0 \<le> 100
   \<and> count_syllables U w =
       max 1 (vowel_groups False
         (if lower U w \<noteq> [] \<and> last (lower U w) = 101 then butlast (lower U w) else lower U w))"
proof -
  have c1: "strip t0 = [] \<longrightarrow> calculate_reading_ease U F N t0 = 0"
    by (simp add: calculate_reading_ease_def)
  have c2: "sent_tokenize N t0 = None \<or> word_tokenize N t0 = None \<longrightarrow>
        calculate_reading_ease U F N t0 = 0"
    by (auto simp: calculate_reading_ease_def split: option.splits)
  have c3: "\<forall>sentences tokens.
        sent_tokenize N t0 = Some sentences \<and> word_tokenize N t0 = Some tokens \<longrightarrow>
          (sentences = [] \<or> filter (isalpha U) tokens = [] \<longrightarrow>
             calculate_reading_ease U F N t0 = 0)
        \<and> (strip t0 \<noteq> [] \<and> sentences \<noteq> [] \<and> filter (isalpha U) tokens \<noteq> [] \<longrightarrow>
             calculate_reading_ease U F N t0 =
               round2 F (max (min
                 (fsub F
                    (fsub F (literal F (206835 / 1000))
                       (fmul F (literal F (1015 / 1000))
                          (int_div F (length (filter (isalpha U) tokens)) (length sentences))))
                    (fmul F (literal F (846 / 10))
                       (int_div F (sum_list (map (count_syllables U) (filter (isalpha U) tokens)))
                          (length (filter (isalpha U) tokens)))))
                 100) 0))"
  proof (intro allI impI conjI)
    fix sentences tokens
    assume tk: "sent_tokenize N t0 = Some sentences \<and> word_tokenize N t0 = Some tokens"
    {
      assume "sentences = [] \<or> filter (isalpha U) tokens = []"
      then show "calculate_reading_ease U F N t0 = 0"
        using tk by (auto simp: calculate_reading_ease_def Let_def)
    }
    {
      assume ne: "strip t0 \<noteq> [] \<and> sentences \<noteq> [] \<and> filter (isalpha U) tokens \<noteq> []"
      then have t: "t0 \<noteq> []" using strip_Nil by auto
      have m1: "max (length sentences) (Suc 0) = length sentences"
        using ne by (cases sentences) auto
      have m2: "max (length (filter (isalpha U) tokens)) (Suc 0)
          = length (filter (isalpha U) tokens)"
        using ne by (cases "filter (isalpha U) tokens") auto
      show "calculate_reading_ease U F N t0 =
               round2 F (max (min
                 (fsub F
                    (fsub F (literal F (206835 / 1000))
                       (fmul F (literal F (1015 / 1000))
                          (int_div F (length (filter (isalpha U) tokens)) (length sentences))))
                    (fmul F (literal F (846 / 10))
                       (int_div F (sum_list (map (count_syllables U) (filter (isalpha U) tokens)))
                          (length (filter (isalpha U) tokens)))))
                 100) 0)"
        using tk ne t
        by (simp add: calculate_reading_ease_def reading_ease_score_def Let_def m1 m2)
    }
  qed
  have c45: "0 \<le> calculate_reading_ease U exact_floats N t0
     \<and> calculate_reading_ease U exact_floats N t0 \<le> 100"
    using exact_score_bounds
    by (auto simp: calculate_reading_ease_def Let_def split: option.splits)
  show ?thesis
    using c1 c2 c3 c45 count_syllables_groups[of U w] by blast
qed

lemmas reading_eval = isalpha_def is_alpha_def is_ascii_def is_upper_ascii_def
  is_lower_ascii_def lower_def lower_ascii_def ascii_only_def count_syllables_def is_vowel_def
  split_def is_space_def str_def Let_def

theorem calculate_reading_ease_cases_witness:
  "calculate_reading_ease ascii_only exact_floats
      \<lparr> sent_tokenize = (\<lambda>t. Some [t]), word_tokenize = (\<lambda>t. Some (split t)) \<rparr> [32, 32] = 0
   \<and> calculate_reading_ease ascii_only exact_floats
      \<lparr> sent_tokenize = (\<lambda>t. None), word_tokenize = (\<lambda>t. Some (split t)) \<rparr>
      (str ''The parties agree'') = 0
   \<and> calculate_reading_ease ascii_only exact_floats
      \<lparr> sent_tokenize = (\<lambda>t. Some [t]), word_tokenize = (\<lambda>t. Some (split t)) \<rparr>
      (str ''The parties agree'') = 6279 / 100
   \<and> count_syllables ascii_only (str ''The'') = 1
   \<and> count_syllables ascii_only (str ''parties'') = 2
   \<and> count_syllables ascii_only (str ''agree'') = 2"
proof -
  let ?U = ascii_only
  let ?F = exact_floats
  let ?N = "\<lparr> sent_tokenize = (\<lambda>t. Some [t]), word_tokenize = (\<lambda>t. Some (split t)) \<rparr>"
  let ?N1 = "\<lparr> sent_tokenize = (\<lambda>t::ustring. None), word_tokenize = (\<lambda>t. Some (split t)) \<rparr>"
  let ?t = "str ''The parties agree''"
  let ?ws = "[str ''The'', str ''parties'', str ''agree'']"
  have h1: "strip [32, 32] = []"
    by (simp add: strip_empty_iff is_space_def)
  have w1: "calculate_reading_ease ?U ?F ?N [32, 32] = 0"
    by (rule mp [OF conjunct1 [OF calculate_reading_ease_cases] h1])
  have h2: "sent_tokenize ?N1 ?t = None \<or> word_tokenize ?N1 ?t = None"
    by simp
  have w2: "calculate_reading_ease ?U ?F ?N1 ?t = 0"
    by (rule mp [OF conjunct1 [OF conjunct2 [OF calculate_reading_ease_cases]] h2])
  have sp: "split ?t = ?ws"
    by (simp add: split_def is_space_def str_def)
  have al: "filter (isalpha ?U) ?ws = ?ws"
    by (simp add: reading_eval)
  have s1: "count_syllables ?U (str ''The'') = 1"
    by (simp add: reading_eval)
  have s2: "count_syllables ?U (str ''parties'') = 2"
    by (simp add: reading_eval)
  have s3: "count_syllables ?U (str ''agree'') = 2"
    by (simp add: reading_eval)
  have sy: "sum_list (map (count_syllables ?U) ?ws) = 5"
    by (simp add: s1 s2 s3)
  have h3: "sent_tokenize ?N ?t = Some [?t] \<and> word_tokenize ?N ?t = Some ?ws"
    by (simp add: sp)
  have h4: "strip ?t \<noteq> [] \<and> [?t] \<noteq> [] \<and> filter (isalpha ?U) ?ws \<noteq> []"
    unfolding al by (simp add: strip_empty_iff is_space_def str_def)
  note c3 = conjunct1 [OF conjunct2 [OF conjunct2
    [OF calculate_reading_ease_cases [of ?t ?U ?F ?N]]]]
  note inst = mp [OF spec [OF spec [OF c3, of "[?t]"], of ?ws] h3]
  have "calculate_reading_ease ?U ?F ?N ?t =
      round2 ?F (max (min
        (fsub ?F
           (fsub ?F (literal ?F (206835 / 1000))
              (fmul ?F (literal ?F (1015 / 1000)) (int_div ?F (length ?ws) (length [?t]))))
           (fmul ?F (literal ?F (846 / 10))
              (int_div ?F (sum_list (map (count_syllables ?U) ?ws)) (length ?ws))))
        100) 0)"
    using mp [OF conjunct2 [OF inst] h4] unfolding al .
  then have w3: "calculate_reading_ease ?U ?F ?N ?t = 6279 / 100"
    unfolding sy by (simp add: exact_floats_def round_half_even_def)
  note g = conjunct2 [OF conjunct2 [OF conjunct2 [OF conjunct2 [OF conjunct2
    [OF calculate_reading_ease_cases]]]]]
  have w4: "count_syllables ?U (str ''The'') = 1"
    unfolding g [of ?U "str ''The''"] by (simp add: reading_eval)
  show ?thesis using w1 w2 w3 w4 s2 s3 by (intro conjI)
qed

text \<open>
  The claim C8 as it is written gives the formula for every input that is not empty or all
  whitespace. The text \<open>2024\<close> is one sentence with one token, which is not alphabetic:
  the code returns 0.0, and the formula for no word and no syllable in one sentence gives
  100.
\<close>

theorem calculate_reading_ease_counterexample:
  "calculate_reading_ease ascii_only exact_floats
      \<lparr> sent_tokenize = (\<lambda>t. Some [t]), word_tokenize = (\<lambda>t. Some (split t)) \<rparr>
      (str ''2024'') = 0
   \<and> strip (str ''2024'') \<noteq> []
   \<and> reading_ease_score exact_floats 0 1 0 = 100"
proof -
  have sp: "split (str ''2024'') = [str ''2024'']"
    by (simp add: split_def is_space_def str_def)
  have ne: "strip (str ''2024'') \<noteq> []"
    by (simp add: strip_empty_iff is_space_def str_def)
  have na: "\<not> isalpha ascii_only (str ''2024'')"
    by (simp add: reading_eval)
  have a: "calculate_reading_ease ascii_only exact_floats
      \<lparr> sent_tokenize = (\<lambda>t. Some [t]), word_tokenize = (\<lambda>t. Some (split t)) \<rparr>
      (str ''2024'') = 0"
    using ne na by (simp add: calculate_reading_ease_def sp)
  have b: "reading_ease_score exact_floats 0 1 0 = 100"
    by (simp add: reading_ease_score_def exact_floats_def round_half_even_def)
  show ?thesis using a ne b by (intro conjI)
qed

end
